theory Spec2Isabelle
  imports Main
begin

section \<open>Text primitives of the host language\<close>

text \<open>
  Both tools work on lines of text. A line is a \<^typ>\<open>string\<close>; the models below cover
  ASCII text. \<open>is_space\<close> is the set of ASCII characters that \<^verbatim>\<open>str.split()\<close> and
  \<^verbatim>\<open>str.strip()\<close> treat as white space: tab, line feed, vertical tab, form feed,
  carriage return, the four separators 0x1C..0x1F and the blank.
\<close>

definition is_space :: "char \<Rightarrow> bool" where
  "is_space c =
     (c \<in> {CHR 0x09, CHR 0x0A, CHR 0x0B, CHR 0x0C, CHR 0x0D,
            CHR 0x1C, CHR 0x1D, CHR 0x1E, CHR 0x1F, CHR 0x20})"

text \<open>\<^verbatim>\<open>s.split()\<close>: the maximal runs of characters that are not white space. The
  second argument is the token being read.\<close>

fun split_from :: "string \<Rightarrow> string \<Rightarrow> string list" where
  "split_from cur [] = (if cur = [] then [] else [cur])"
| "split_from cur (c # cs) =
     (if is_space c then (if cur = [] then split_from [] cs else cur # split_from [] cs)
      else split_from (cur @ [c]) cs)"

definition split_ws :: "string \<Rightarrow> string list" where
  "split_ws s = split_from [] s"

text \<open>\<^verbatim>\<open>s.strip()\<close>: white space removed at both ends.\<close>

definition strip :: "string \<Rightarrow> string" where
  "strip s = rev (dropWhile is_space (rev (dropWhile is_space s)))"

text \<open>
  \<^verbatim>\<open>int(tok)\<close> for a token without white space: an optional sign, then decimal digits
  in which single underscores may separate digits. \<open>None\<close> is the \<^verbatim>\<open>ValueError\<close>.
\<close>

definition is_digit :: "char \<Rightarrow> bool" where
  "is_digit c = (48 \<le> (of_char c :: nat) \<and> (of_char c :: nat) \<le> 57)"

definition digit_val :: "char \<Rightarrow> nat" where
  "digit_val c = of_char c - 48"

fun digits_val :: "nat \<Rightarrow> string \<Rightarrow> nat option" where
  "digits_val acc [] = Some acc"
| "digits_val acc [c] = (if is_digit c then Some (10 * acc + digit_val c) else None)"
| "digits_val acc (c # d # ds) =
     (if is_digit c then digits_val (10 * acc + digit_val c) (d # ds)
      else if c = CHR ''_'' \<and> is_digit d then digits_val (10 * acc + digit_val d) ds
      else None)"

definition unsigned_val :: "string \<Rightarrow> nat option" where
  "unsigned_val s =
     (case s of [] \<Rightarrow> None
      | c # cs \<Rightarrow> if is_digit c then digits_val (digit_val c) cs else None)"

definition py_int :: "string \<Rightarrow> int option" where
  "py_int s =
     (case s of [] \<Rightarrow> None
      | c # cs \<Rightarrow>
          if c = CHR ''-'' then map_option (\<lambda>n. - int n) (unsigned_val cs)
          else if c = CHR ''+'' then map_option int (unsigned_val cs)
          else map_option int (unsigned_val s))"

text \<open>\<^verbatim>\<open>f"{n}"\<close> for a natural number: its decimal digits.\<close>

definition digit_char :: "nat \<Rightarrow> char" where
  "digit_char d = ''0123456789'' ! d"

fun str_nat :: "nat \<Rightarrow> string" where
  "str_nat n = (if n < 10 then [digit_char n] else str_nat (n div 10) @ [digit_char (n mod 10)])"

declare str_nat.simps [simp del]

section \<open>xyz\_fix\_linenu: the line-count normalizer\<close>

text \<open>\<^verbatim>\<open>is_line_count(line)\<close>: the stripped line is a single token that \<^verbatim>\<open>int\<close> accepts.\<close>

definition is_line_count :: "string \<Rightarrow> bool" where
  "is_line_count line =
     (let parts = split_ws (strip line) in
      if length parts = 1 then (case py_int (parts ! 0) of Some _ \<Rightarrow> True | None \<Rightarrow> False)
      else False)"

text \<open>The dictionary that \<^verbatim>\<open>main\<close> appends to \<^verbatim>\<open>frames\<close>.\<close>

record frame =
  count_line_index :: nat
  comment :: string
  lines :: "string list"
  actual_count :: nat

text \<open>
  The \<^verbatim>\<open>while i < len(lines)\<close> loop of \<^verbatim>\<open>main\<close>. The model walks the lines that are
  left, with \<open>i\<close> the index of the first of them: a count line followed by at least one
  more line opens a frame whose comment is that next line and whose body is every line
  up to the next count line or the end; a count line that is the last line, and a line
  that is no count line, are stepped over.
\<close>

function collect_frames :: "nat \<Rightarrow> string list \<Rightarrow> frame list" where
  "collect_frames i [] = []"
| "collect_frames i (line # rest) =
     (if is_line_count line then
        (case rest of
           [] \<Rightarrow> []
         | comment_line # rest' \<Rightarrow>
             (let frame_lines = takeWhile (\<lambda>l. \<not> is_line_count l) rest' in
              \<lparr>count_line_index = i, comment = comment_line, lines = frame_lines,
               actual_count = length frame_lines\<rparr>
              # collect_frames (i + 2 + length frame_lines)
                  (dropWhile (\<lambda>l. \<not> is_line_count l) rest')))
      else collect_frames (i + 1) rest)"
  by pat_completeness auto
termination
  by (relation "measure (\<lambda>(i, ls). length ls)")
     (auto intro: le_less_trans [OF length_dropWhile_le])

text \<open>
  What \<^verbatim>\<open>main\<close> writes for one frame, and for all of them: each element is one
  \<^verbatim>\<open>sys.stdout.write\<close>. \<open>xyz_fix_linenu_main\<close> is \<^verbatim>\<open>main\<close> from the point where
  \<^verbatim>\<open>f.readlines()\<close> has returned the lines \<open>inp\<close>; from there on the program writes to
  standard output only (its one message on standard error is for a missing input file).
\<close>

definition write_frame :: "frame \<Rightarrow> string list" where
  "write_frame f = (str_nat (actual_count f) @ ''\<newline>'') # comment f # lines f"

definition xyz_fix_linenu_main :: "string list \<Rightarrow> string list" where
  "xyz_fix_linenu_main inp = concat (map write_frame (collect_frames 0 inp))"

section \<open>xyz\_add\_gen\_msite: the M-site insertion tool\<close>

subsection \<open>Floating point as an interface\<close>

text \<open>
  The tool reads coordinates with \<^verbatim>\<open>float\<close>, multiplies them by coefficients, adds the
  products with \<^verbatim>\<open>sum\<close> and prints the result with \<^verbatim>\<open>:11.7f\<close>. These four
  operations belong to the host language, so the model takes them as a parameter
  \<open>ops\<close> over an arbitrary carrier \<open>'f\<close>; every theorem below holds for each choice of
  them. \<open>float_of\<close> returns \<open>None\<close> where \<^verbatim>\<open>float\<close> raises \<^verbatim>\<open>ValueError\<close>.
\<close>

record 'f float_ops =
  float_of :: "string \<Rightarrow> 'f option"
  fmul :: "'f \<Rightarrow> 'f \<Rightarrow> 'f"
  fsum :: "'f list \<Rightarrow> 'f"
  fmt_11_7f :: "'f \<Rightarrow> string"

datatype py_error = IndexError | ValueError

text \<open>\<^verbatim>\<open>xs[i]\<close> for \<open>i \<ge> 0\<close>.\<close>

definition py_nth :: "'a list \<Rightarrow> nat \<Rightarrow> py_error + 'a" where
  "py_nth xs i = (if i < length xs then Inr (xs ! i) else Inl IndexError)"

text \<open>\<^verbatim>\<open>xs.insert(i, v)\<close> for \<open>i \<ge> 0\<close>: an index past the end appends.\<close>

definition py_insert :: "nat \<Rightarrow> 'a \<Rightarrow> 'a list \<Rightarrow> 'a list" where
  "py_insert i v xs = take i xs @ v # drop i xs"

text \<open>\<^verbatim>\<open>d.get(k, 0)\<close> on a dictionary of counters.\<close>

definition get0 :: "('k \<rightharpoonup> nat) \<Rightarrow> 'k \<Rightarrow> nat" where
  "get0 m k = (case m k of None \<Rightarrow> 0 | Some c \<Rightarrow> c)"

subsection \<open>Records of the tool\<close>

text \<open>One parsed definition (\<^verbatim>\<open>parse_msite_definitions\<close> builds these) and one atom of
  a molecule (\<^verbatim>\<open>process_molecule\<close> builds these).\<close>

record 'f msite_definition =
  mol_type :: string
  atom_names :: "string list"
  msite_name :: string
  coefficients :: "'f list"

record 'f atom =
  name :: string
  x :: 'f
  y :: 'f
  z :: 'f
  line_index :: nat

subsection \<open>Line classification\<close>

definition get_molecule_id :: "string \<Rightarrow> string option" where
  "get_molecule_id line =
     (let parts = split_ws line in
      if length parts \<ge> 8 then Some (last parts) else None)"

definition is_atom_line :: "'f float_ops \<Rightarrow> string \<Rightarrow> bool" where
  "is_atom_line ops line =
     (let parts = split_ws line in
      if length parts < 4 then False
      else (case float_of ops (parts ! 1) of None \<Rightarrow> False
            | Some _ \<Rightarrow>
              (case float_of ops (parts ! 2) of None \<Rightarrow> False
               | Some _ \<Rightarrow>
                 (case float_of ops (parts ! 3) of None \<Rightarrow> False
                  | Some _ \<Rightarrow> True))))"

subsection \<open>find\_pattern\_in\_molecule\<close>

text \<open>The first loop: \<^verbatim>\<open>needed_counts\<close>.\<close>

fun count_names :: "(string \<rightharpoonup> nat) \<Rightarrow> string list \<Rightarrow> (string \<rightharpoonup> nat)" where
  "count_names needed_counts [] = needed_counts"
| "count_names needed_counts (nm # pattern) =
     count_names (needed_counts(nm \<mapsto> get0 needed_counts nm + 1)) pattern"

text \<open>The second loop: \<^verbatim>\<open>pattern_occurrences\<close>, built with \<^verbatim>\<open>seen_counts\<close>.\<close>

fun occurrences :: "(string \<rightharpoonup> nat) \<Rightarrow> string list \<Rightarrow> (string \<times> nat) list" where
  "occurrences seen_counts [] = []"
| "occurrences seen_counts (nm # pattern) =
     (let seen_counts' = seen_counts(nm \<mapsto> get0 seen_counts nm + 1)
      in (nm, get0 seen_counts' nm) # occurrences seen_counts' pattern)"

text \<open>The inner \<^verbatim>\<open>for i, (pattern_name, needed_occurrence) in enumerate(...)\<close> loop for
  one atom: the first slot that asks for this name at this occurrence is bound, if it is
  still unbound, and the loop breaks.\<close>

fun bind_slot ::
  "nat \<Rightarrow> (string \<times> nat) list \<Rightarrow> string \<Rightarrow> nat \<Rightarrow> 'a \<Rightarrow> 'a option list \<Rightarrow> 'a option list" where
  "bind_slot i [] nm current_occurrence atom found_atoms = found_atoms"
| "bind_slot i ((pattern_name, needed_occurrence) # rest) nm current_occurrence atom found_atoms =
     (if pattern_name = nm \<and> needed_occurrence = current_occurrence then
        (if found_atoms ! i = None then found_atoms[i := Some atom] else found_atoms)
      else bind_slot (i + 1) rest nm current_occurrence atom found_atoms)"

text \<open>The outer \<^verbatim>\<open>for atom in atoms\<close> loop, with \<^verbatim>\<open>atom_counts\<close> and \<^verbatim>\<open>found_atoms\<close> as
  its state.\<close>

fun scan_atoms ::
  "(string \<rightharpoonup> nat) \<Rightarrow> (string \<times> nat) list \<Rightarrow> (string \<rightharpoonup> nat) \<Rightarrow> 'f atom list \<Rightarrow>
   'f atom option list \<Rightarrow> 'f atom option list" where
  "scan_atoms needed_counts pattern_occurrences atom_counts [] found_atoms = found_atoms"
| "scan_atoms needed_counts pattern_occurrences atom_counts (atom # atoms) found_atoms =
     (if needed_counts (name atom) \<noteq> None then
        (let atom_counts' = atom_counts(name atom \<mapsto> get0 atom_counts (name atom) + 1);
             current_occurrence = get0 atom_counts' (name atom)
         in scan_atoms needed_counts pattern_occurrences atom_counts' atoms
              (bind_slot 0 pattern_occurrences (name atom) current_occurrence atom found_atoms))
      else scan_atoms needed_counts pattern_occurrences atom_counts atoms found_atoms)"

text \<open>The result is the list of bound atoms when every slot is bound, and \<open>None\<close>
  otherwise (\<^const>\<open>those\<close> is exactly this test).\<close>

definition find_pattern_in_molecule :: "'f atom list \<Rightarrow> string list \<Rightarrow> 'f atom list option" where
  "find_pattern_in_molecule atoms pattern =
     (let needed_counts = count_names Map.empty pattern;
          pattern_occurrences = occurrences Map.empty pattern;
          found_atoms = scan_atoms needed_counts pattern_occurrences Map.empty atoms
                          (replicate (length pattern) None)
      in those found_atoms)"

subsection \<open>process\_molecule\<close>

text \<open>The first loop of \<^verbatim>\<open>process_molecule\<close>: the atoms of the molecule's lines, each
  with the index of its line. \<open>i\<close> is the index of the first line that is left. The
  three \<^verbatim>\<open>float\<close> calls follow a successful \<^verbatim>\<open>is_atom_line\<close>; a failure there would be
  a \<^verbatim>\<open>ValueError\<close>.\<close>

fun parse_atoms :: "'f float_ops \<Rightarrow> nat \<Rightarrow> string list \<Rightarrow> py_error + 'f atom list" where
  "parse_atoms ops i [] = Inr []"
| "parse_atoms ops i (line # rest) =
     (if is_atom_line ops line then
        (let parts = split_ws line in
         case (float_of ops (parts ! 1), float_of ops (parts ! 2), float_of ops (parts ! 3)) of
           (Some vx, Some vy, Some vz) \<Rightarrow>
             (case parse_atoms ops (i + 1) rest of
                Inl e \<Rightarrow> Inl e
              | Inr atoms \<Rightarrow>
                  Inr (\<lparr>name = parts ! 0, x = vx, y = vy, z = vz, line_index = i\<rparr> # atoms))
         | _ \<Rightarrow> Inl ValueError)
      else parse_atoms ops (i + 1) rest)"

text \<open>\<^verbatim>\<open>sum(defn['coefficients'][i] * atom[k] for i, atom in enumerate(pattern_atoms))\<close>,
  given the coordinates \<open>vals\<close> of the pattern atoms: indexing the coefficients raises
  \<^verbatim>\<open>IndexError\<close> when there are fewer of them than atoms.\<close>

definition weighted_sum :: "'f float_ops \<Rightarrow> 'f list \<Rightarrow> 'f list \<Rightarrow> py_error + 'f" where
  "weighted_sum ops coeffs vals =
     (if length coeffs < length vals then Inl IndexError
      else Inr (fsum ops (map (\<lambda>(c, v). fmul ops c v) (zip coeffs vals))))"

text \<open>\<^verbatim>\<open>f"{s:<8s}"\<close>, and the two shapes of the M-site line.\<close>

definition ljust8 :: "string \<Rightarrow> string" where
  "ljust8 s = s @ replicate (8 - length s) CHR '' ''"

definition msite_head :: "'f float_ops \<Rightarrow> string \<Rightarrow> 'f \<Rightarrow> 'f \<Rightarrow> 'f \<Rightarrow> string" where
  "msite_head ops nm mx my mz =
     ljust8 nm @ '' '' @ fmt_11_7f ops mx @ '' '' @ fmt_11_7f ops my @ '' '' @ fmt_11_7f ops mz"

definition msite_tail :: "string \<Rightarrow> string \<Rightarrow> string" where
  "msite_tail p7 p8 =
     ''     0.0000000     0.0000000     0.0000000     '' @ p7 @ ''     '' @ p8 @ ''\<newline>''"

text \<open>
  The body of the \<^verbatim>\<open>for defn in definitions\<close> loop: the insertion that one definition
  contributes, if any. \<^verbatim>\<open>if pattern_atoms:\<close> is false for \<^verbatim>\<open>None\<close> and for the empty
  list. The template line is the line of the last atom of the pattern; with eight or
  more tokens the line is built from \<^verbatim>\<open>parts[7]\<close> and \<^verbatim>\<open>parts[8]\<close>.
\<close>

definition msite_insertion ::
  "'f float_ops \<Rightarrow> string list \<Rightarrow> 'f atom list \<Rightarrow> 'f msite_definition \<Rightarrow>
   py_error + (nat \<times> string) option" where
  "msite_insertion ops mol_lines atoms defn =
     (case find_pattern_in_molecule atoms (atom_names defn) of
        None \<Rightarrow> Inr None
      | Some pattern_atoms \<Rightarrow>
          if pattern_atoms = [] then Inr None
          else
            (case weighted_sum ops (coefficients defn) (map x pattern_atoms) of
               Inl e \<Rightarrow> Inl e
             | Inr mx \<Rightarrow>
            (case weighted_sum ops (coefficients defn) (map y pattern_atoms) of
               Inl e \<Rightarrow> Inl e
             | Inr my \<Rightarrow>
            (case weighted_sum ops (coefficients defn) (map z pattern_atoms) of
               Inl e \<Rightarrow> Inl e
             | Inr mz \<Rightarrow>
            (let last_pattern_atom = last pattern_atoms in
             case py_nth mol_lines (line_index last_pattern_atom) of
               Inl e \<Rightarrow> Inl e
             | Inr last_pattern_atom_line \<Rightarrow>
                 (let parts = split_ws last_pattern_atom_line;
                      insert_index = line_index last_pattern_atom + 1
                  in if length parts \<ge> 8 then
                       (case py_nth parts 7 of
                          Inl e \<Rightarrow> Inl e
                        | Inr p7 \<Rightarrow>
                            (case py_nth parts 8 of
                               Inl e \<Rightarrow> Inl e
                             | Inr p8 \<Rightarrow>
                                 Inr (Some (insert_index,
                                   msite_head ops (msite_name defn) mx my mz @ msite_tail p7 p8))))
                     else
                       Inr (Some (insert_index,
                         msite_head ops (msite_name defn) mx my mz @ ''\<newline>''))))))))"

text \<open>The loop over the definitions: the list \<^verbatim>\<open>insertions\<close>, in definition order; the
  first exception ends it.\<close>

fun collect_insertions ::
  "'f float_ops \<Rightarrow> string list \<Rightarrow> 'f atom list \<Rightarrow> 'f msite_definition list \<Rightarrow>
   py_error + (nat \<times> string) list" where
  "collect_insertions ops mol_lines atoms [] = Inr []"
| "collect_insertions ops mol_lines atoms (defn # definitions) =
     (case msite_insertion ops mol_lines atoms defn of
        Inl e \<Rightarrow> Inl e
      | Inr ins \<Rightarrow>
          (case collect_insertions ops mol_lines atoms definitions of
             Inl e \<Rightarrow> Inl e
           | Inr insertions \<Rightarrow> Inr ((case ins of None \<Rightarrow> [] | Some p \<Rightarrow> [p]) @ insertions)))"

text \<open>\<^verbatim>\<open>for index, line in reversed(insertions): output_lines.insert(index, line)\<close>.\<close>

definition apply_insertions :: "(nat \<times> string) list \<Rightarrow> string list \<Rightarrow> string list" where
  "apply_insertions insertions output_lines =
     foldl (\<lambda>out (index, line). py_insert index line out) output_lines (rev insertions)"

definition process_molecule ::
  "'f float_ops \<Rightarrow> string list \<Rightarrow> 'f msite_definition list \<Rightarrow> py_error + string list" where
  "process_molecule ops mol_lines definitions =
     (case parse_atoms ops 0 mol_lines of
        Inl e \<Rightarrow> Inl e
      | Inr atoms \<Rightarrow>
          (case collect_insertions ops mol_lines atoms definitions of
             Inl e \<Rightarrow> Inl e
           | Inr insertions \<Rightarrow> Inr (apply_insertions insertions mol_lines)))"

subsection \<open>main\<close>

text \<open>The variables of the \<^verbatim>\<open>for line in f\<close> loop, with what has been written to
  standard output so far.\<close>

record main_state =
  current_mol_id :: "string option"
  current_mol_lines :: "string list"
  header_mode :: bool
  stdout :: "string list"

text \<open>One iteration of the loop. An exception of \<^verbatim>\<open>process_molecule\<close> is not caught.\<close>

definition main_step ::
  "'f float_ops \<Rightarrow> 'f msite_definition list \<Rightarrow> main_state \<Rightarrow> string \<Rightarrow> py_error + main_state" where
  "main_step ops definitions s line =
     (let mol_id = get_molecule_id line;
          s1 = (if header_mode s \<and> mol_id \<noteq> None then s\<lparr>header_mode := False\<rparr> else s)
      in if header_mode s1 then Inr (s1\<lparr>stdout := stdout s1 @ [line]\<rparr>)
         else if mol_id = current_mol_id s1 then
           Inr (s1\<lparr>current_mol_lines := current_mol_lines s1 @ [line]\<rparr>)
         else
           (case (if current_mol_lines s1 \<noteq> [] then
                    (case process_molecule ops (current_mol_lines s1) definitions of
                       Inl e \<Rightarrow> Inl e
                     | Inr output_lines \<Rightarrow> Inr (s1\<lparr>stdout := stdout s1 @ output_lines\<rparr>))
                  else Inr s1) of
              Inl e \<Rightarrow> Inl e
            | Inr s2 \<Rightarrow>
                if mol_id \<noteq> None then
                  Inr (s2\<lparr>current_mol_id := mol_id, current_mol_lines := [line]\<rparr>)
                else
                  Inr (s2\<lparr>stdout := stdout s2 @ [line], current_mol_lines := [],
                          current_mol_id := None\<rparr>)))"

fun main_loop ::
  "'f float_ops \<Rightarrow> 'f msite_definition list \<Rightarrow> main_state \<Rightarrow> string list \<Rightarrow>
   main_state \<times> py_error option" where
  "main_loop ops definitions s [] = (s, None)"
| "main_loop ops definitions s (line # rest) =
     (case main_step ops definitions s line of
        Inl e \<Rightarrow> (s, Some e)
      | Inr s' \<Rightarrow> main_loop ops definitions s' rest)"

text \<open>
  What a run leaves behind: the writes to standard output, the diagnostics that the
  program itself prints to standard error, and the exception that ended it, if any.
  \<open>xyz_add_gen_msite_main\<close> is \<^verbatim>\<open>main\<close> from the point where the definitions have been
  parsed and the input has been opened: the warning for an empty definition list, the
  loop, and the last molecule.
\<close>

record run_result =
  out_lines :: "string list"
  err_lines :: "string list"
  uncaught :: "py_error option"

definition xyz_add_gen_msite_main ::
  "'f float_ops \<Rightarrow> 'f msite_definition list \<Rightarrow> string list \<Rightarrow> run_result" where
  "xyz_add_gen_msite_main ops definitions inp =
     (let err = (if definitions = [] then [''Warning: No M-site definitions found\<newline>''] else []);
          (s, e) = main_loop ops definitions
                     \<lparr>current_mol_id = None, current_mol_lines = [], header_mode = True,
                      stdout = []\<rparr> inp
      in case e of
           Some ex \<Rightarrow> \<lparr>out_lines = stdout s, err_lines = err, uncaught = Some ex\<rparr>
         | None \<Rightarrow>
             if current_mol_lines s \<noteq> [] then
               (case process_molecule ops (current_mol_lines s) definitions of
                  Inl ex \<Rightarrow> \<lparr>out_lines = stdout s, err_lines = err, uncaught = Some ex\<rparr>
                | Inr output_lines \<Rightarrow>
                    \<lparr>out_lines = stdout s @ output_lines, err_lines = err, uncaught = None\<rparr>)
             else \<lparr>out_lines = stdout s, err_lines = err, uncaught = None\<rparr>)"

subsection \<open>Exact decimals: an instance of the interface for concrete runs\<close>

text \<open>
  To run the model on concrete lines the interface is instantiated with exact decimal
  arithmetic: \<open>Dec m e\<close> is the number \<open>m / 10^e\<close>. \<open>dec_of\<close> reads plain decimal
  literals (an optional sign, digits, an optional point and digits); \<open>dec_fmt\<close> rounds
  to seven decimals, half to even (\<open>dec_scaled7\<close> is the absolute value in units of
  \<open>10^-7\<close>), and pads to eleven characters. On the lines that are
  run below every product and sum is a short decimal, and doubles print the same
  seven decimals.
\<close>

datatype dec = Dec int nat

fun dec_mul :: "dec \<Rightarrow> dec \<Rightarrow> dec" where
  "dec_mul (Dec a i) (Dec b j) = Dec (a * b) (i + j)"

fun dec_add :: "dec \<Rightarrow> dec \<Rightarrow> dec" where
  "dec_add (Dec a i) (Dec b j) =
     Dec (a * 10 ^ (max i j - i) + b * 10 ^ (max i j - j)) (max i j)"

definition dec_sum :: "dec list \<Rightarrow> dec" where
  "dec_sum vs = foldl dec_add (Dec 0 0) vs"

definition digits_nat :: "string \<Rightarrow> nat" where
  "digits_nat ds = foldl (\<lambda>a c. 10 * a + digit_val c) 0 ds"

definition dec_of :: "string \<Rightarrow> dec option" where
  "dec_of s =
     (let (neg, body) =
            (case s of
               [] \<Rightarrow> (False, [])
             | c # cs \<Rightarrow>
                 if c = CHR ''-'' then (True, cs)
                 else if c = CHR ''+'' then (False, cs) else (False, s));
          ip = takeWhile is_digit body;
          rest = dropWhile is_digit body;
          sg = (if neg then - 1 else 1)
      in case rest of
           [] \<Rightarrow> if ip = [] then None else Some (Dec (sg * int (digits_nat ip)) 0)
         | c # fp \<Rightarrow>
             if c = CHR ''.'' \<and> list_all is_digit fp \<and> (ip \<noteq> [] \<or> fp \<noteq> [])
             then Some (Dec (sg * int (digits_nat (ip @ fp))) (length fp))
             else None)"

definition round_half_even :: "int \<Rightarrow> int \<Rightarrow> int" where
  "round_half_even a d =
     (if 2 * (a mod d) > d \<or> (2 * (a mod d) = d \<and> odd (a div d)) then a div d + 1
      else a div d)"

fun dec_scaled7 :: "dec \<Rightarrow> int" where
  "dec_scaled7 (Dec m e) =
     (if e \<le> 7 then \<bar>m\<bar> * 10 ^ (7 - e) else round_half_even \<bar>m\<bar> (10 ^ (e - 7)))"

fun dec_negative :: "dec \<Rightarrow> bool" where
  "dec_negative (Dec m e) = (m < 0)"

definition frac7 :: "int \<Rightarrow> string" where
  "frac7 q =
     map (\<lambda>p. digit_char (nat (q div p mod 10))) [1000000, 100000, 10000, 1000, 100, 10, 1]"

definition rjust11 :: "string \<Rightarrow> string" where
  "rjust11 s = replicate (11 - length s) CHR '' '' @ s"

definition dec_fmt :: "dec \<Rightarrow> string" where
  "dec_fmt v =
     rjust11 ((if dec_negative v then ''-'' else []) @
              str_nat (nat (dec_scaled7 v div 10000000)) @ ''.'' @ frac7 (dec_scaled7 v))"

definition decimal_ops :: "dec float_ops" where
  "decimal_ops = \<lparr>float_of = dec_of, fmul = dec_mul, fsum = dec_sum, fmt_11_7f = dec_fmt\<rparr>"

section \<open>Notions used to state the properties\<close>

text \<open>
  A stream of lines seen as the normalizer sees it: lines \<open>pre\<close> before the first count
  line, then frames \<open>(c, cm, b)\<close> made of a count line \<open>c\<close>, the line \<open>cm\<close> after it and
  the lines \<open>b\<close> up to the next count line, then \<open>fin\<close>, which is empty or one last count
  line with nothing after it. \<open>frames_text\<close> is the text of the frames and \<open>recount\<close>
  rewrites each count line from the length of its body.
\<close>

definition frame_layout :: "string list \<Rightarrow> (string \<times> string \<times> string list) list \<Rightarrow> string list \<Rightarrow> bool" where
  "frame_layout pre ts fin \<longleftrightarrow>
     (\<forall>l\<in>set pre. \<not> is_line_count l) \<and>
     (\<forall>(c, cm, b)\<in>set ts. is_line_count c \<and> (\<forall>l\<in>set b. \<not> is_line_count l)) \<and>
     (fin = [] \<or> length fin = 1 \<and> is_line_count (fin ! 0))"

definition frames_text :: "(string \<times> string \<times> string list) list \<Rightarrow> string list" where
  "frames_text ts = concat (map (\<lambda>(c, cm, b). c # cm # b) ts)"

definition recount :: "(string \<times> string \<times> string list) list \<Rightarrow> (string \<times> string \<times> string list) list" where
  "recount ts = map (\<lambda>(c, cm, b). (str_nat (length b) @ ''\<newline>'', cm, b)) ts"


text \<open>
  For the pattern matcher: \<open>occurrence_rank pattern i\<close> is the occurrence of its name that
  slot \<open>i\<close> asks for (the number of slots up to and including \<open>i\<close> that carry the name
  of slot \<open>i\<close>); \<open>running_count atoms p\<close> is the per-name counter of a scan in file
  order when it reaches the atom at position \<open>p\<close>; \<open>slot_position atoms pattern i\<close> is
  the position of the atom whose name is that of slot \<open>i\<close> and whose running count is
  the rank of slot \<open>i\<close>, if there is one.
\<close>

definition occurrence_rank :: "string list \<Rightarrow> nat \<Rightarrow> nat" where
  "occurrence_rank pattern i = length (filter (\<lambda>n. n = pattern ! i) (take (Suc i) pattern))"

definition running_count :: "'f atom list \<Rightarrow> nat \<Rightarrow> nat" where
  "running_count atoms p =
     length (filter (\<lambda>a. name a = name (atoms ! p)) (take (Suc p) atoms))"

definition slot_position :: "'f atom list \<Rightarrow> string list \<Rightarrow> nat \<Rightarrow> nat option" where
  "slot_position atoms pattern i =
     List.find (\<lambda>p. name (atoms ! p) = pattern ! i \<and>
                     running_count atoms p = occurrence_rank pattern i) [0..<length atoms]"


text \<open>
  For the site synthesizer: \<open>site_coord ops defn k pattern_atoms\<close> is the sum over the
  slots of coefficient \<open>i\<close> times coordinate \<open>k\<close> of bound atom \<open>i\<close>;
  \<open>valid_definition\<close> is what \<^verbatim>\<open>parse_msite_definitions\<close> guarantees of every
  definition it returns: at least one atom name, and as many coefficients as atom names.
\<close>

definition site_coord ::
  "'f float_ops \<Rightarrow> 'f msite_definition \<Rightarrow> ('f atom \<Rightarrow> 'f) \<Rightarrow> 'f atom list \<Rightarrow> 'f" where
  "site_coord ops defn k pattern_atoms =
     fsum ops (map (\<lambda>i. fmul ops (coefficients defn ! i) (k (pattern_atoms ! i)))
                 [0..<length pattern_atoms])"

definition valid_definition :: "'f msite_definition \<Rightarrow> bool" where
  "valid_definition defn \<longleftrightarrow>
     atom_names defn \<noteq> [] \<and> length (coefficients defn) = length (atom_names defn)"

text \<open>
  Definitions for concrete runs: the definition \<^verbatim>\<open>DMA / C1 H2 C1 EM / 0.2 0.2 0.2\<close>, and
  a site \<open>site_nm\<close> placed on a single atom \<open>atom_nm\<close> with coefficient \<^verbatim>\<open>1.0\<close>.
\<close>

definition em_definition :: "dec msite_definition" where
  "em_definition = \<lparr>mol_type = ''DMA'', atom_names = [''C1'', ''H2'', ''C1''],
     msite_name = ''EM'', coefficients = [Dec 2 1, Dec 2 1, Dec 2 1]\<rparr>"

definition site_on :: "string \<Rightarrow> string \<Rightarrow> dec msite_definition" where
  "site_on atom_nm site_nm = \<lparr>mol_type = ''MOL'', atom_names = [atom_nm],
     msite_name = site_nm, coefficients = [Dec 10 1]\<rparr>"

section \<open>Decimal rendering and count lines\<close>

lemma digit_cases:
  "d < 10 \<Longrightarrow> d = 0 \<or> d = 1 \<or> d = 2 \<or> d = 3 \<or> d = 4 \<or> d = 5 \<or> d = 6 \<or> d = 7 \<or> d = 8 \<or> d = (9::nat)"
  by arith

lemma is_digit_digit_char: "d < 10 \<Longrightarrow> is_digit (digit_char d)"
  using digit_cases [of d] by (auto simp: is_digit_def digit_char_def)

lemma digit_val_digit_char: "d < 10 \<Longrightarrow> digit_val (digit_char d) = d"
  using digit_cases [of d] by (auto simp: digit_val_def digit_char_def)

lemma not_space_digit: "is_digit c \<Longrightarrow> \<not> is_space c"
  by (auto simp: is_digit_def is_space_def)

lemma digits_val_snoc:
  "\<forall>c\<in>set ds. is_digit c \<Longrightarrow> is_digit c \<Longrightarrow>
   digits_val acc (ds @ [c]) = map_option (\<lambda>v. 10 * v + digit_val c) (digits_val acc ds)"
  by (induction acc ds rule: digits_val.induct) auto

lemma digits_val_Some: "\<forall>c\<in>set ds. is_digit c \<Longrightarrow> \<exists>v. digits_val acc ds = Some v"
  by (induction acc ds rule: digits_val.induct) auto

lemma str_nat_digits: "\<forall>c\<in>set (str_nat n). is_digit c"
  by (induction n rule: str_nat.induct) (subst str_nat.simps, auto simp: is_digit_digit_char)

lemma str_nat_nonempty: "str_nat n \<noteq> []"
  by (subst str_nat.simps) simp

lemma unsigned_val_snoc:
  assumes "\<forall>c\<in>set s. is_digit c" "is_digit c" "unsigned_val s = Some v"
  shows "unsigned_val (s @ [c]) = Some (10 * v + digit_val c)"
  using assms by (cases s) (auto simp: unsigned_val_def digits_val_snoc)

lemma unsigned_val_str_nat: "unsigned_val (str_nat n) = Some n"
proof (induction n rule: str_nat.induct)
  case (1 n)
  show ?case
  proof (cases "n < 10")
    case True
    then show ?thesis
      by (subst str_nat.simps) (simp add: unsigned_val_def is_digit_digit_char digit_val_digit_char)
  next
    case False
    with 1 have ih: "unsigned_val (str_nat (n div 10)) = Some (n div 10)" by simp
    have "unsigned_val (str_nat (n div 10) @ [digit_char (n mod 10)]) = Some (10 * (n div 10) + digit_val (digit_char (n mod 10)))"
      by (rule unsigned_val_snoc [OF str_nat_digits _ ih]) (simp add: is_digit_digit_char)
    with False show ?thesis
      by (subst str_nat.simps) (simp add: digit_val_digit_char)
  qed
qed

lemma py_int_str_nat: "py_int (str_nat n) = Some (int n)"
proof -
  obtain c cs where s: "str_nat n = c # cs" using str_nat_nonempty by (cases "str_nat n") auto
  have "is_digit c" using str_nat_digits [of n] s by simp
  then have "c \<noteq> CHR ''-''" "c \<noteq> CHR ''+''" by (auto simp: is_digit_def)
  then show ?thesis using unsigned_val_str_nat [of n] s by (simp add: py_int_def)
qed

lemma split_from_nospace:
  "\<forall>c\<in>set s. \<not> is_space c \<Longrightarrow> split_from cur s = (if cur @ s = [] then [] else [cur @ s])"
  by (induction s arbitrary: cur) auto

lemma split_ws_token: "\<forall>c\<in>set s. \<not> is_space c \<Longrightarrow> s \<noteq> [] \<Longrightarrow> split_ws s = [s]"
  by (simp add: split_ws_def split_from_nospace)

lemma strip_token_nl:
  assumes "\<forall>c\<in>set s. \<not> is_space c" "s \<noteq> []"
  shows "strip (s @ ''\<newline>'') = s"
proof -
  obtain c cs where s: "s = c # cs" using assms(2) by (cases s) auto
  have l: "\<not> is_space (last s)" using assms by simp
  have "dropWhile is_space (s @ ''\<newline>'') = s @ ''\<newline>''" using assms s by simp
  moreover have "dropWhile is_space (rev (s @ ''\<newline>'')) = rev s"
    using l assms(2) by (cases "rev s") (auto simp: is_space_def dest: arg_cong [where f = rev])
  ultimately show ?thesis by (simp add: strip_def)
qed

lemma split_strip_str_nat: "split_ws (strip (str_nat n @ ''\<newline>'')) = [str_nat n]"
  using str_nat_digits [of n] str_nat_nonempty [of n]
  by (simp add: strip_token_nl split_ws_token not_space_digit)

lemma is_line_count_str_nat: "is_line_count (str_nat n @ ''\<newline>'')"
  by (simp add: is_line_count_def split_strip_str_nat py_int_str_nat)

section \<open>The frames of a stream\<close>

lemma frame_layout_iff:
  "frame_layout pre ts fin \<longleftrightarrow>
     (\<forall>l\<in>set pre. \<not> is_line_count l) \<and>
     (\<forall>(c, cm, b)\<in>set ts. is_line_count c \<and> (\<forall>l\<in>set b. \<not> is_line_count l)) \<and>
     (fin = [] \<or> (\<exists>c. fin = [c] \<and> is_line_count c))"
  unfolding frame_layout_def by (cases fin) auto


lemma collect_frames_skip:
  "\<forall>l\<in>set pre. \<not> is_line_count l \<Longrightarrow>
   collect_frames i (pre @ rest) = collect_frames (i + length pre) rest"
  by (induction pre arbitrary: i) auto

lemma takeWhile_body:
  assumes "\<forall>l\<in>set b. P l" "rest = [] \<or> \<not> P (hd rest)"
  shows "takeWhile P (b @ rest) = b" "dropWhile P (b @ rest) = rest"
  using assms by (cases rest; simp)+

lemma collect_frames_block:
  assumes "is_line_count c" "\<forall>l\<in>set b. \<not> is_line_count l" "rest = [] \<or> is_line_count (hd rest)"
  shows "collect_frames i (c # cm # b @ rest) =
         \<lparr>count_line_index = i, comment = cm, lines = b, actual_count = length b\<rparr>
         # collect_frames (i + 2 + length b) rest"
  using assms takeWhile_body [of b "\<lambda>l. \<not> is_line_count l" rest] by simp

lemma frames_text_Cons: "frames_text ((c, cm, b) # ts) = c # cm # b @ frames_text ts"
  by (simp add: frames_text_def)

lemma frames_text_Nil: "frames_text [] = []"
  by (simp add: frames_text_def)

lemma frames_text_head:
  "\<forall>(c, cm, b)\<in>set ts. is_line_count c \<and> (\<forall>l\<in>set b. \<not> is_line_count l) \<Longrightarrow>
   fin = [] \<or> (\<exists>c. fin = [c] \<and> is_line_count c) \<Longrightarrow>
   frames_text ts @ fin = [] \<or> is_line_count (hd (frames_text ts @ fin))"
  by (cases ts) (auto simp: frames_text_Cons frames_text_Nil)

lemma collect_frames_text:
  assumes "\<forall>(c, cm, b)\<in>set ts. is_line_count c \<and> (\<forall>l\<in>set b. \<not> is_line_count l)"
    and "fin = [] \<or> (\<exists>c. fin = [c] \<and> is_line_count c)"
  shows "map (\<lambda>f. (comment f, lines f, actual_count f)) (collect_frames i (frames_text ts @ fin)) =
         map (\<lambda>(c, cm, b). (cm, b, length b)) ts"
  using assms(1)
proof (induction ts arbitrary: i)
  case Nil
  then show ?case using assms(2) by (auto simp: frames_text_Nil)
next
  case (Cons t ts)
  obtain c cm b where t: "t = (c, cm, b)" by (cases t) auto
  from Cons.prems t have c: "is_line_count c" and b: "\<forall>l\<in>set b. \<not> is_line_count l"
    and rest: "\<forall>(c, cm, b)\<in>set ts. is_line_count c \<and> (\<forall>l\<in>set b. \<not> is_line_count l)"
    by auto
  have hd: "frames_text ts @ fin = [] \<or> is_line_count (hd (frames_text ts @ fin))"
    by (rule frames_text_head [OF rest assms(2)])
  have "collect_frames i (frames_text (t # ts) @ fin) =
        \<lparr>count_line_index = i, comment = cm, lines = b, actual_count = length b\<rparr>
        # collect_frames (i + 2 + length b) (frames_text ts @ fin)"
    using collect_frames_block [OF c b hd, of i cm] by (simp add: t frames_text_Cons)
  then show ?case using Cons.IH [OF rest] by (simp add: t)
qed

lemma main_frames_text:
  assumes "frame_layout pre ts fin"
  shows "xyz_fix_linenu_main (pre @ frames_text ts @ fin) = frames_text (recount ts)"
proof -
  from assms have pre: "\<forall>l\<in>set pre. \<not> is_line_count l"
    and ts: "\<forall>(c, cm, b)\<in>set ts. is_line_count c \<and> (\<forall>l\<in>set b. \<not> is_line_count l)"
    and fin: "fin = [] \<or> (\<exists>c. fin = [c] \<and> is_line_count c)"
    by (auto simp: frame_layout_iff)
  have w: "write_frame f = (case (comment f, lines f, actual_count f) of
             (cm, b, n) \<Rightarrow> (str_nat n @ ''\<newline>'') # cm # b)" for f
    by (simp add: write_frame_def)
  have "map write_frame (collect_frames (0 + length pre) (frames_text ts @ fin)) =
        map (\<lambda>(cm, b, n). (str_nat n @ ''\<newline>'') # cm # b)
          (map (\<lambda>f. (comment f, lines f, actual_count f))
             (collect_frames (0 + length pre) (frames_text ts @ fin)))"
    by (simp add: w)
  also have "\<dots> = map (\<lambda>(c, cm, b). (str_nat (length b) @ ''\<newline>'') # cm # b) ts"
    by (simp add: collect_frames_text [OF ts fin] case_prod_unfold)
  finally show ?thesis
    by (simp add: xyz_fix_linenu_main_def collect_frames_skip [OF pre] frames_text_def recount_def
        case_prod_unfold comp_def)
qed

lemma layout_exists:
  "\<exists>pre ts fin. frame_layout pre ts fin \<and> inp = pre @ frames_text ts @ fin"
proof (induction inp rule: length_induct)
  case (1 inp)
  show ?case
  proof (cases inp)
    case Nil
    have "frame_layout [] [] []" by (simp add: frame_layout_iff)
    then show ?thesis using Nil by (metis append_Nil frames_text_Nil)
  next
    case (Cons line rest)
    show ?thesis
    proof (cases "is_line_count line")
      case False
      from 1 Cons obtain pre ts fin where l: "frame_layout pre ts fin" and r: "rest = pre @ frames_text ts @ fin"
        by auto
      from l False have "frame_layout (line # pre) ts fin" by (simp add: frame_layout_iff)
      moreover have "inp = (line # pre) @ frames_text ts @ fin" using Cons r by simp
      ultimately show ?thesis by blast
    next
      case True
      show ?thesis
      proof (cases rest)
        case Nil
        have "frame_layout [] [] [line]" using True by (simp add: frame_layout_iff)
        moreover have "inp = [] @ frames_text [] @ [line]" using Cons Nil by (simp add: frames_text_Nil)
        ultimately show ?thesis by blast
      next
        case (Cons cm rest')
        let ?P = "\<lambda>l. \<not> is_line_count l"
        let ?b = "takeWhile ?P rest'" and ?r = "dropWhile ?P rest'"
        have "length ?r < length inp" using \<open>inp = line # rest\<close> Cons
          by (simp add: le_imp_less_Suc less_SucI length_dropWhile_le)
        with 1 obtain pre ts fin where l: "frame_layout pre ts fin" and r: "?r = pre @ frames_text ts @ fin"
          by blast
        have "pre = []"
        proof (rule ccontr)
          assume "pre \<noteq> []"
          then have "?r \<noteq> []" "hd ?r = hd pre" using r by auto
          moreover have "?P (hd pre)" using l \<open>pre \<noteq> []\<close> by (simp add: frame_layout_iff)
          ultimately show False using hd_dropWhile [of ?P rest'] by simp
        qed
        have "frame_layout [] ((line, cm, ?b) # ts) fin"
          using l True by (auto simp: frame_layout_iff dest: set_takeWhileD)
        moreover have "inp = [] @ frames_text ((line, cm, ?b) # ts) @ fin"
          using \<open>inp = line # rest\<close> Cons r \<open>pre = []\<close> takeWhile_dropWhile_id [of ?P rest']
          by (simp add: frames_text_Cons)
        ultimately show ?thesis by blast
      qed
    qed
  qed
qed

lemma recount_layout:
  assumes "\<forall>(c, cm, b)\<in>set ts. is_line_count c \<and> (\<forall>l\<in>set b. \<not> is_line_count l)"
  shows "\<forall>(c, cm, b)\<in>set (recount ts). is_line_count c \<and> (\<forall>l\<in>set b. \<not> is_line_count l)"
  using assms by (auto simp: recount_def is_line_count_str_nat)

lemma recount_recount: "recount (recount ts) = recount ts"
  by (simp add: recount_def case_prod_unfold comp_def)

lemma nth_past_block: "(c # cm # b @ r) ! (2 + length b + k) = r ! k"
  by (simp add: nth_append)

lemma drop_past_block: "drop (2 + length b + k) (c # cm # b @ r) = drop k r"
  by simp

lemma collect_frames_positions:
  "\<forall>f\<in>set (collect_frames i xs).
     i \<le> count_line_index f \<and> count_line_index f - i + 1 < length xs \<and>
     is_line_count (xs ! (count_line_index f - i)) \<and>
     comment f = xs ! (count_line_index f - i + 1) \<and>
     lines f = takeWhile (\<lambda>l. \<not> is_line_count l) (drop (count_line_index f - i + 2) xs) \<and>
     actual_count f = length (lines f)"
proof (induction i xs rule: collect_frames.induct)
  case (1 i)
  then show ?case by simp
next
  case (2 i line rest)
  show ?case
  proof (cases "is_line_count line")
    case False
    with 2 have ih: "\<forall>f\<in>set (collect_frames (i + 1) rest).
       i + 1 \<le> count_line_index f \<and> count_line_index f - (i + 1) + 1 < length rest \<and>
       is_line_count (rest ! (count_line_index f - (i + 1))) \<and>
       comment f = rest ! (count_line_index f - (i + 1) + 1) \<and>
       lines f = takeWhile (\<lambda>l. \<not> is_line_count l) (drop (count_line_index f - (i + 1) + 2) rest) \<and>
       actual_count f = length (lines f)"
      by simp
    show ?thesis
    proof
      fix f assume "f \<in> set (collect_frames i (line # rest))"
      with False have f: "f \<in> set (collect_frames (i + 1) rest)" by simp
      let ?k = "count_line_index f - (i + 1)"
      from ih f have le: "i + 1 \<le> count_line_index f" by blast
      then have k: "count_line_index f - i = Suc ?k" by simp
      from ih f show "i \<le> count_line_index f \<and> count_line_index f - i + 1 < length (line # rest) \<and>
         is_line_count ((line # rest) ! (count_line_index f - i)) \<and>
         comment f = (line # rest) ! (count_line_index f - i + 1) \<and>
         lines f = takeWhile (\<lambda>l. \<not> is_line_count l) (drop (count_line_index f - i + 2) (line # rest)) \<and>
         actual_count f = length (lines f)"
        unfolding k using le by auto
    qed
  next
    case True
    show ?thesis
    proof (cases rest)
      case Nil
      with True show ?thesis by simp
    next
      case (Cons cm rest')
      let ?P = "\<lambda>l. \<not> is_line_count l"
      let ?b = "takeWhile ?P rest'" and ?r = "dropWhile ?P rest'"
      let ?j = "i + 2 + length ?b"
      have split: "line # rest = line # cm # ?b @ ?r" using Cons by simp
      from 2(1) [OF True Cons refl] have ih: "\<forall>f\<in>set (collect_frames ?j ?r).
         ?j \<le> count_line_index f \<and> count_line_index f - ?j + 1 < length ?r \<and>
         is_line_count (?r ! (count_line_index f - ?j)) \<and>
         comment f = ?r ! (count_line_index f - ?j + 1) \<and>
         lines f = takeWhile ?P (drop (count_line_index f - ?j + 2) ?r) \<and>
         actual_count f = length (lines f)"
        by simp
      have cf: "collect_frames i (line # rest) =
          \<lparr>count_line_index = i, comment = cm, lines = ?b, actual_count = length ?b\<rparr>
          # collect_frames ?j ?r"
        using True Cons by (simp add: Let_def)
      show ?thesis
      proof
        fix f assume "f \<in> set (collect_frames i (line # rest))"
        then consider (hd) "f = \<lparr>count_line_index = i, comment = cm, lines = ?b, actual_count = length ?b\<rparr>"
          | (tl) "f \<in> set (collect_frames ?j ?r)"
          unfolding cf by auto
        then show "i \<le> count_line_index f \<and> count_line_index f - i + 1 < length (line # rest) \<and>
           is_line_count ((line # rest) ! (count_line_index f - i)) \<and>
           comment f = (line # rest) ! (count_line_index f - i + 1) \<and>
           lines f = takeWhile ?P (drop (count_line_index f - i + 2) (line # rest)) \<and>
           actual_count f = length (lines f)"
        proof cases
          case hd
          then show ?thesis using True Cons by simp
        next
          case tl
          let ?k = "count_line_index f - ?j"
          from ih tl have le: "?j \<le> count_line_index f" by blast
          then have k: "count_line_index f - i = 2 + length ?b + ?k" by simp
          have n0: "(line # cm # ?b @ ?r) ! (2 + length ?b + ?k) = ?r ! ?k"
            by (rule nth_past_block)
          have n1: "(line # cm # ?b @ ?r) ! (2 + length ?b + ?k + 1) = ?r ! (?k + 1)"
            using nth_past_block [of line cm ?b ?r "?k + 1"] by (simp only: add.assoc)
          have d: "drop (2 + length ?b + ?k + 2) (line # cm # ?b @ ?r) = drop (?k + 2) ?r"
            using drop_past_block [of ?b "?k + 2" line cm ?r] by (simp only: add.assoc)
          have len: "length (line # cm # ?b @ ?r) = 2 + length ?b + length ?r"
            by (simp only: length_Cons length_append)
          from ih tl show ?thesis
            unfolding split k n0 n1 d len using le by auto
        qed
      qed
    qed
  qed
qed

lemma recount_count_lines:
  assumes "\<forall>(c, cm, b)\<in>set ts. is_line_count c \<and> (\<forall>l\<in>set b. \<not> is_line_count l)"
  shows "\<forall>f\<in>set (collect_frames i (frames_text (recount ts))).
           i \<le> count_line_index f \<and>
           frames_text (recount ts) ! (count_line_index f - i) = str_nat (length (lines f)) @ ''\<newline>''"
  using assms
proof (induction ts arbitrary: i)
  case Nil
  then show ?case by (simp add: recount_def frames_text_Nil)
next
  case (Cons t ts)
  obtain c cm b where t: "t = (c, cm, b)" by (cases t) auto
  let ?c = "str_nat (length b) @ ''\<newline>''"
  let ?R = "frames_text (recount ts)"
  let ?j = "i + 2 + length b"
  from Cons.prems t have b: "\<forall>l\<in>set b. \<not> is_line_count l"
    and rest: "\<forall>(c, cm, b)\<in>set ts. is_line_count c \<and> (\<forall>l\<in>set b. \<not> is_line_count l)"
    by auto
  have rtext: "frames_text (recount (t # ts)) = ?c # cm # b @ ?R"
    by (simp add: t recount_def frames_text_Cons)
  have "?R @ [] = [] \<or> is_line_count (hd (?R @ []))"
    by (rule frames_text_head [OF recount_layout [OF rest]]) simp
  then have hd: "?R = [] \<or> is_line_count (hd ?R)" by simp
  have cf: "collect_frames i (?c # cm # b @ ?R) =
        \<lparr>count_line_index = i, comment = cm, lines = b, actual_count = length b\<rparr>
        # collect_frames ?j ?R"
    by (rule collect_frames_block [OF is_line_count_str_nat b hd])
  show ?case
  proof
    fix f assume "f \<in> set (collect_frames i (frames_text (recount (t # ts))))"
    then consider (hd) "f = \<lparr>count_line_index = i, comment = cm, lines = b, actual_count = length b\<rparr>"
      | (tl) "f \<in> set (collect_frames ?j ?R)"
      unfolding rtext cf by auto
    then show "i \<le> count_line_index f \<and>
       frames_text (recount (t # ts)) ! (count_line_index f - i) = str_nat (length (lines f)) @ ''\<newline>''"
    proof cases
      case hd
      then show ?thesis by (simp add: rtext)
    next
      case tl
      from Cons.IH [OF rest, of ?j] tl
      have le: "?j \<le> count_line_index f"
        and nth: "?R ! (count_line_index f - ?j) = str_nat (length (lines f)) @ ''\<newline>''"
        by blast+
      from le have k: "count_line_index f - i = 2 + length b + (count_line_index f - ?j)" by simp
      show ?thesis unfolding rtext k nth_past_block using le nth by simp
    qed
  qed
qed

lemma actual_count_length:
  "f \<in> set (collect_frames i xs) \<Longrightarrow> actual_count f = length (lines f)"
  using collect_frames_positions [of i xs] by blast

lemma main_as_frames:
  "xyz_fix_linenu_main inp =
   concat (map (\<lambda>f. (str_nat (length (lines f)) @ ''\<newline>'') # comment f # lines f)
     (collect_frames 0 inp))"
proof -
  have "map write_frame (collect_frames 0 inp) =
        map (\<lambda>f. (str_nat (length (lines f)) @ ''\<newline>'') # comment f # lines f)
          (collect_frames 0 inp)"
    by (rule map_cong) (simp_all add: write_frame_def actual_count_length)
  then show ?thesis by (simp only: xyz_fix_linenu_main_def)
qed

lemma frames_of_layout:
  assumes "frame_layout pre ts fin"
  shows "map (\<lambda>f. (comment f, lines f)) (collect_frames 0 (pre @ frames_text ts @ fin)) =
         map (\<lambda>(c, cm, b). (cm, b)) ts"
proof -
  from assms have pre: "\<forall>l\<in>set pre. \<not> is_line_count l"
    and ts: "\<forall>(c, cm, b)\<in>set ts. is_line_count c \<and> (\<forall>l\<in>set b. \<not> is_line_count l)"
    and fin: "fin = [] \<or> (\<exists>c. fin = [c] \<and> is_line_count c)"
    by (auto simp: frame_layout_iff)
  have "map (\<lambda>f. (comment f, lines f)) (collect_frames (0 + length pre) (frames_text ts @ fin)) =
        map (\<lambda>(cm, b, n). (cm, b)) (map (\<lambda>f. (comment f, lines f, actual_count f))
          (collect_frames (0 + length pre) (frames_text ts @ fin)))"
    by simp
  also have "\<dots> = map (\<lambda>(c, cm, b). (cm, b)) ts"
    by (simp add: collect_frames_text [OF ts fin] case_prod_unfold)
  finally show ?thesis by (simp add: collect_frames_skip [OF pre])
qed

lemma layout_recount: "frame_layout pre ts fin \<Longrightarrow> frame_layout [] (recount ts) []"
  using recount_layout [of ts] by (simp add: frame_layout_iff)

section \<open>Properties of the line-count normalizer\<close>

text \<open>
  Claim C5. For every input, the normalizer writes the frames it collected, in the order
  collected, each with its count line replaced by the decimal length of the body it
  collected. Read again by the same frame collector, the output has the same comments and
  bodies, and for each of its frames the line at the frame's count-line index is the
  decimal length of the body, \<^verbatim>\<open>int\<close> reads that line as the number of body lines, the
  next line is the comment, and the body is exactly the run of lines after the comment
  up to the next count line or the end.
\<close>

theorem normalized_counts_match_bodies:
  "map (\<lambda>f. (comment f, lines f)) (collect_frames 0 (xyz_fix_linenu_main inp)) =
     map (\<lambda>f. (comment f, lines f)) (collect_frames 0 inp) \<and>
   xyz_fix_linenu_main inp =
     concat (map (\<lambda>f. (str_nat (length (lines f)) @ ''\<newline>'') # comment f # lines f)
       (collect_frames 0 inp)) \<and>
   (\<forall>f\<in>set (collect_frames 0 (xyz_fix_linenu_main inp)).
      xyz_fix_linenu_main inp ! count_line_index f = str_nat (length (lines f)) @ ''\<newline>'' \<and>
      py_int (split_ws (strip (xyz_fix_linenu_main inp ! count_line_index f)) ! 0) =
        Some (int (length (lines f))) \<and>
      xyz_fix_linenu_main inp ! (count_line_index f + 1) = comment f \<and>
      lines f = takeWhile (\<lambda>l. \<not> is_line_count l)
                  (drop (count_line_index f + 2) (xyz_fix_linenu_main inp)))"
proof -
  let ?out = "xyz_fix_linenu_main inp"
  obtain pre ts fin where lay: "frame_layout pre ts fin" and inp: "inp = pre @ frames_text ts @ fin"
    using layout_exists by blast
  have out: "?out = frames_text (recount ts)"
    unfolding inp by (rule main_frames_text [OF lay])
  have ts: "\<forall>(c, cm, b)\<in>set ts. is_line_count c \<and> (\<forall>l\<in>set b. \<not> is_line_count l)"
    using lay by (simp add: frame_layout_iff)
  have "map (\<lambda>f. (comment f, lines f)) (collect_frames 0 ([] @ frames_text (recount ts) @ [])) =
        map (\<lambda>(c, cm, b). (cm, b)) (recount ts)"
    by (rule frames_of_layout [OF layout_recount [OF lay]])
  also have "\<dots> = map (\<lambda>(c, cm, b). (cm, b)) ts"
    by (simp add: recount_def case_prod_unfold comp_def)
  also have "\<dots> = map (\<lambda>f. (comment f, lines f)) (collect_frames 0 inp)"
    unfolding inp by (rule frames_of_layout [OF lay, symmetric])
  finally have same: "map (\<lambda>f. (comment f, lines f)) (collect_frames 0 ?out) =
      map (\<lambda>f. (comment f, lines f)) (collect_frames 0 inp)"
    by (simp add: out)
  have each: "?out ! count_line_index f = str_nat (length (lines f)) @ ''\<newline>'' \<and>
      py_int (split_ws (strip (?out ! count_line_index f)) ! 0) = Some (int (length (lines f))) \<and>
      ?out ! (count_line_index f + 1) = comment f \<and>
      lines f = takeWhile (\<lambda>l. \<not> is_line_count l) (drop (count_line_index f + 2) ?out)"
    if f: "f \<in> set (collect_frames 0 ?out)" for f
  proof -
    from recount_count_lines [OF ts, of 0] f
    have c: "?out ! count_line_index f = str_nat (length (lines f)) @ ''\<newline>''"
      by (simp add: out)
    from collect_frames_positions [of 0 ?out] f
    have "comment f = ?out ! (count_line_index f + 1)"
      and "lines f = takeWhile (\<lambda>l. \<not> is_line_count l) (drop (count_line_index f + 2) ?out)"
      by auto
    then show ?thesis by (simp add: c split_strip_str_nat py_int_str_nat)
  qed
  from same main_as_frames [of inp] each show ?thesis by blast
qed

theorem normalized_counts_match_bodies_witness:
  "xyz_fix_linenu_main
     [''junk\<newline>'', '' 5\<newline>'', ''c\<newline>'', ''a\<newline>'', ''b\<newline>'', ''7\<newline>'', ''d\<newline>'', ''9\<newline>''] =
     [''2\<newline>'', ''c\<newline>'', ''a\<newline>'', ''b\<newline>'', ''0\<newline>'', ''d\<newline>''] \<and>
   collect_frames 0 [''2\<newline>'', ''c\<newline>'', ''a\<newline>'', ''b\<newline>'', ''0\<newline>'', ''d\<newline>''] =
     [\<lparr>count_line_index = 0, comment = ''c\<newline>'', lines = [''a\<newline>'', ''b\<newline>''], actual_count = 2\<rparr>,
      \<lparr>count_line_index = 4, comment = ''d\<newline>'', lines = [], actual_count = 0\<rparr>] \<and>
   py_int (split_ws (strip ''2\<newline>'') ! 0) = Some 2 \<and>
   py_int (split_ws (strip ''0\<newline>'') ! 0) = Some 0"
proof -
  let ?inp = "[''junk\<newline>'', '' 5\<newline>'', ''c\<newline>'', ''a\<newline>'', ''b\<newline>'', ''7\<newline>'', ''d\<newline>'', ''9\<newline>'']"
  let ?out = "[''2\<newline>'', ''c\<newline>'', ''a\<newline>'', ''b\<newline>'', ''0\<newline>'', ''d\<newline>'']"
  have out: "xyz_fix_linenu_main ?inp = ?out" by code_simp
  have fs: "collect_frames 0 ?out =
     [\<lparr>count_line_index = 0, comment = ''c\<newline>'', lines = [''a\<newline>'', ''b\<newline>''], actual_count = 2\<rparr>,
      \<lparr>count_line_index = 4, comment = ''d\<newline>'', lines = [], actual_count = 0\<rparr>]"
    by code_simp
  from normalized_counts_match_bodies [of ?inp] show ?thesis
    unfolding out fs by simp
qed

text \<open>
  Claim C6, as the code has it. The output is the input again when every count line of
  the input is written exactly as the normalizer writes it (the decimal length of the
  body and a line feed, nothing else) and the stream is nothing but such frames; and for
  every input whatsoever, normalizing the normalizer's output changes nothing.
  A stream whose counts are right but written otherwise (padded with blanks, with a
  sign, with leading zeros) is rewritten: see the counterexample that follows.
\<close>

theorem normalize_fixpoint:
  "((\<forall>(cm, b)\<in>set fs. \<forall>l\<in>set b. \<not> is_line_count l) \<longrightarrow>
     xyz_fix_linenu_main (concat (map (\<lambda>(cm, b). (str_nat (length b) @ ''\<newline>'') # cm # b) fs)) =
     concat (map (\<lambda>(cm, b). (str_nat (length b) @ ''\<newline>'') # cm # b) fs)) \<and>
   xyz_fix_linenu_main (xyz_fix_linenu_main inp) = xyz_fix_linenu_main inp"
proof
  show "(\<forall>(cm, b)\<in>set fs. \<forall>l\<in>set b. \<not> is_line_count l) \<longrightarrow>
     xyz_fix_linenu_main (concat (map (\<lambda>(cm, b). (str_nat (length b) @ ''\<newline>'') # cm # b) fs)) =
     concat (map (\<lambda>(cm, b). (str_nat (length b) @ ''\<newline>'') # cm # b) fs)"
  proof
    assume b: "\<forall>(cm, b)\<in>set fs. \<forall>l\<in>set b. \<not> is_line_count l"
    let ?ts = "map (\<lambda>(cm, b). (str_nat (length b) @ ''\<newline>'', cm, b)) fs"
    have lay: "frame_layout [] ?ts []"
      using b by (auto simp: frame_layout_iff is_line_count_str_nat)
    have t: "frames_text ?ts = concat (map (\<lambda>(cm, b). (str_nat (length b) @ ''\<newline>'') # cm # b) fs)"
      by (simp add: frames_text_def case_prod_unfold comp_def)
    have r: "recount ?ts = ?ts"
      by (simp add: recount_def case_prod_unfold comp_def)
    from main_frames_text [OF lay] show
      "xyz_fix_linenu_main (concat (map (\<lambda>(cm, b). (str_nat (length b) @ ''\<newline>'') # cm # b) fs)) =
       concat (map (\<lambda>(cm, b). (str_nat (length b) @ ''\<newline>'') # cm # b) fs)"
      by (simp add: r t)
  qed
next
  obtain pre ts fin where lay: "frame_layout pre ts fin" and inp: "inp = pre @ frames_text ts @ fin"
    using layout_exists by blast
  have out: "xyz_fix_linenu_main inp = frames_text (recount ts)"
    unfolding inp by (rule main_frames_text [OF lay])
  from main_frames_text [OF layout_recount [OF lay]]
  show "xyz_fix_linenu_main (xyz_fix_linenu_main inp) = xyz_fix_linenu_main inp"
    by (simp add: out recount_recount)
qed

theorem normalize_fixpoint_witness:
  "xyz_fix_linenu_main [''1\<newline>'', ''c\<newline>'', ''a\<newline>''] = [''1\<newline>'', ''c\<newline>'', ''a\<newline>''] \<and>
   xyz_fix_linenu_main (xyz_fix_linenu_main ['' 1\<newline>'', ''c\<newline>'', ''a\<newline>'']) =
   xyz_fix_linenu_main ['' 1\<newline>'', ''c\<newline>'', ''a\<newline>'']"
proof -
  have b: "\<forall>(cm, b)\<in>set [(''c\<newline>'', [''a\<newline>''])]. \<forall>l\<in>set b. \<not> is_line_count l" by code_simp
  have s: "str_nat (Suc 0) = ''1''" by code_simp
  from normalize_fixpoint [of "[(''c\<newline>'', [''a\<newline>''])]" "['' 1\<newline>'', ''c\<newline>'', ''a\<newline>'']"] b
  show ?thesis by (simp add: s)
qed

theorem normalize_fixpoint_counterexample:
  "collect_frames 0 ['' 1\<newline>'', ''c\<newline>'', ''a\<newline>''] =
     [\<lparr>count_line_index = 0, comment = ''c\<newline>'', lines = [''a\<newline>''], actual_count = 1\<rparr>] \<and>
   py_int (split_ws (strip '' 1\<newline>'') ! 0) = Some 1 \<and>
   xyz_fix_linenu_main ['' 1\<newline>'', ''c\<newline>'', ''a\<newline>''] = [''1\<newline>'', ''c\<newline>'', ''a\<newline>''] \<and>
   xyz_fix_linenu_main ['' 1\<newline>'', ''c\<newline>'', ''a\<newline>''] \<noteq> ['' 1\<newline>'', ''c\<newline>'', ''a\<newline>'']"
  by code_simp

text \<open>
  Claim C10. Every input splits into lines before the first count line, frames, and
  possibly one last count line with nothing after it; and for each such split the output
  is exactly the frames, each with its rewritten count line: the lines before the first
  count line and the last lone count line are not written. Nothing else is written
  for them either: after reading its input the program writes to standard output only.
\<close>

theorem lines_outside_frames_dropped:
  "(\<exists>pre ts fin. frame_layout pre ts fin \<and> inp = pre @ frames_text ts @ fin) \<and>
   (\<forall>pre ts fin. frame_layout pre ts fin \<and> inp = pre @ frames_text ts @ fin \<longrightarrow>
      xyz_fix_linenu_main inp =
      concat (map (\<lambda>(c, cm, b). (str_nat (length b) @ ''\<newline>'') # cm # b) ts))"
proof -
  have "xyz_fix_linenu_main inp =
      concat (map (\<lambda>(c, cm, b). (str_nat (length b) @ ''\<newline>'') # cm # b) ts)"
    if "frame_layout pre ts fin" "inp = pre @ frames_text ts @ fin" for pre ts fin
    using main_frames_text [OF that(1)] that(2)
    by (simp add: frames_text_def recount_def case_prod_unfold comp_def)
  with layout_exists [of inp] show ?thesis by blast
qed

theorem lines_outside_frames_dropped_witness:
  "frame_layout [''junk\<newline>'']
     [('' 5\<newline>'', ''c\<newline>'', [''a\<newline>'', ''b\<newline>'']), (''7\<newline>'', ''d\<newline>'', [])] [''9\<newline>''] \<and>
   xyz_fix_linenu_main
     [''junk\<newline>'', '' 5\<newline>'', ''c\<newline>'', ''a\<newline>'', ''b\<newline>'', ''7\<newline>'', ''d\<newline>'', ''9\<newline>''] =
     [''2\<newline>'', ''c\<newline>'', ''a\<newline>'', ''b\<newline>'', ''0\<newline>'', ''d\<newline>'']"
proof -
  let ?pre = "[''junk\<newline>'']"
  let ?ts = "[('' 5\<newline>'', ''c\<newline>'', [''a\<newline>'', ''b\<newline>'']), (''7\<newline>'', ''d\<newline>'', [])]"
  let ?fin = "[''9\<newline>'']"
  let ?inp = "[''junk\<newline>'', '' 5\<newline>'', ''c\<newline>'', ''a\<newline>'', ''b\<newline>'', ''7\<newline>'', ''d\<newline>'', ''9\<newline>'']"
  have lay: "frame_layout ?pre ?ts ?fin" by code_simp
  have inp: "?pre @ frames_text ?ts @ ?fin = ?inp" by (simp add: frames_text_def)
  have s: "str_nat (Suc (Suc 0)) = ''2''" "str_nat 0 = ''0''" by code_simp+
  have "xyz_fix_linenu_main (?pre @ frames_text ?ts @ ?fin) =
      concat (map (\<lambda>(c, cm, b). (str_nat (length b) @ ''\<newline>'') # cm # b) ?ts)"
    using lines_outside_frames_dropped [of "?pre @ frames_text ?ts @ ?fin"] lay by blast
  then have "xyz_fix_linenu_main ?inp = [''2\<newline>'', ''c\<newline>'', ''a\<newline>'', ''b\<newline>'', ''0\<newline>'', ''d\<newline>'']"
    unfolding inp by (simp add: s)
  with lay show ?thesis by simp
qed
section \<open>The pattern matcher\<close>

lemma get0_upd: "get0 (m(k \<mapsto> v)) k' = (if k' = k then v else get0 m k')"
  by (simp add: get0_def)

lemma get0_empty: "get0 Map.empty k = 0"
  by (simp add: get0_def)

lemma count_names_dom:
  "count_names m ns n \<noteq> None \<longleftrightarrow> m n \<noteq> None \<or> n \<in> set ns"
  by (induction ns arbitrary: m) auto

lemma length_occurrences: "length (occurrences seen ns) = length ns"
  by (induction ns arbitrary: seen) (simp_all add: Let_def)

lemma occurrences_Cons:
  "occurrences seen (nm # ns) =
   (nm, get0 seen nm + 1) # occurrences (seen(nm \<mapsto> get0 seen nm + 1)) ns"
  by (simp add: Let_def get0_upd)

declare occurrences.simps(2) [simp del]

lemma occurrences_nth:
  "i < length ns \<Longrightarrow>
   occurrences seen ns ! i =
     (ns ! i, get0 seen (ns ! i) + length (filter (\<lambda>n. n = ns ! i) (take (Suc i) ns)))"
proof (induction ns arbitrary: seen i)
  case Nil
  then show ?case by simp
next
  case (Cons nm ns)
  define seen' where "seen' = seen(nm \<mapsto> get0 seen nm + 1)"
  have g: "get0 seen' k = (if k = nm then get0 seen nm + 1 else get0 seen k)" for k
    by (simp add: seen'_def get0_upd)
  have unf: "occurrences seen (nm # ns) = (nm, get0 seen nm + 1) # occurrences seen' ns"
    by (simp only: occurrences_Cons seen'_def)
  show ?case
  proof (cases i)
    case 0
    then show ?thesis by (simp add: unf)
  next
    case (Suc j)
    with Cons.prems have j: "j < length ns" by simp
    have "occurrences seen' ns ! j =
      (ns ! j, get0 seen' (ns ! j) + length (filter (\<lambda>n. n = ns ! j) (take (Suc j) ns)))"
      by (rule Cons.IH [OF j])
    then show ?thesis by (simp add: unf Suc g)
  qed
qed

lemma occurrences_rank_gt:
  "(n, k) \<in> set (occurrences seen ns) \<Longrightarrow> get0 seen n < k"
proof (induction ns arbitrary: seen)
  case Nil
  then show ?case by simp
next
  case (Cons nm ns)
  define seen' where "seen' = seen(nm \<mapsto> get0 seen nm + 1)"
  have g: "get0 seen' k = (if k = nm then get0 seen nm + 1 else get0 seen k)" for k
    by (simp add: seen'_def get0_upd)
  have unf: "occurrences seen (nm # ns) = (nm, get0 seen nm + 1) # occurrences seen' ns"
    by (simp only: occurrences_Cons seen'_def)
  from Cons.prems consider "(n, k) = (nm, get0 seen nm + 1)"
    | "(n, k) \<in> set (occurrences seen' ns)"
    unfolding unf by auto
  then show ?case
  proof cases
    case 1
    then show ?thesis by simp
  next
    case 2
    from Cons.IH [OF 2] show ?thesis by (simp add: g split: if_splits)
  qed
qed

lemma distinct_occurrences: "distinct (occurrences seen ns)"
proof (induction ns arbitrary: seen)
  case Nil
  then show ?case by simp
next
  case (Cons nm ns)
  define seen' where "seen' = seen(nm \<mapsto> get0 seen nm + 1)"
  have g: "get0 seen' nm = get0 seen nm + 1"
    by (simp add: seen'_def get0_upd)
  have unf: "occurrences seen (nm # ns) = (nm, get0 seen nm + 1) # occurrences seen' ns"
    by (simp only: occurrences_Cons seen'_def)
  have "(nm, get0 seen nm + 1) \<notin> set (occurrences seen' ns)"
    using occurrences_rank_gt [of nm "get0 seen nm + 1" seen' ns] g by auto
  with Cons.IH [of seen'] show ?case unfolding unf by simp
qed

lemma occurrences_names: "(n, k) \<in> set (occurrences seen ns) \<Longrightarrow> n \<in> set ns"
  by (induction ns arbitrary: seen) (auto simp: occurrences_Cons)

lemma length_bind_slot: "length (bind_slot i occs nm cur a found) = length found"
  by (induction i occs nm cur a found rule: bind_slot.induct) auto

lemma bind_slot_nth:
  assumes "distinct occs" "j < length found"
  shows "bind_slot i occs nm cur a found ! j =
         (if i \<le> j \<and> j - i < length occs \<and> occs ! (j - i) = (nm, cur) \<and> found ! j = None
          then Some a else found ! j)"
  using assms
proof (induction i occs nm cur a found rule: bind_slot.induct)
  case (1 i nm cur a found)
  then show ?case by simp
next
  case (2 i pn need rest nm cur a found)
  let ?occs = "(pn, need) # rest"
  let ?c = "i \<le> j \<and> j - i < length ?occs \<and> ?occs ! (j - i) = (nm, cur) \<and> found ! j = None"
  show ?case
  proof (cases "pn = nm \<and> need = cur")
    case True
    then have res: "bind_slot i ?occs nm cur a found =
        (if found ! i = None then found[i := Some a] else found)"
      by simp
    show ?thesis
    proof (cases "j = i")
      case True
      with \<open>pn = nm \<and> need = cur\<close> 2(3) show ?thesis by simp
    next
      case False
      have "\<not> ?c"
      proof
        assume h: ?c
        with False obtain k where k: "j - i = Suc k" by (cases "j - i") auto
        with h have "rest ! k = (nm, cur)" "k < length rest" by auto
        then have "(nm, cur) \<in> set rest" by (metis nth_mem)
        with True 2(2) show False by simp
      qed
      moreover have "bind_slot i ?occs nm cur a found ! j = found ! j"
        unfolding res using False by simp
      ultimately show ?thesis by (simp only: if_False)
    qed
  next
    case False
    then have res: "bind_slot i ?occs nm cur a found = bind_slot (i + 1) rest nm cur a found"
      by auto
    from 2(2) have d: "distinct rest" by simp
    from 2(1) [OF False d 2(3)]
    have ih: "bind_slot (i + 1) rest nm cur a found ! j =
         (if i + 1 \<le> j \<and> j - (i + 1) < length rest \<and> rest ! (j - (i + 1)) = (nm, cur) \<and> found ! j = None
          then Some a else found ! j)" .
    show ?thesis
    proof (cases "i < j")
      case True
      then obtain k where k: "j - i = Suc k" by (cases "j - i") auto
      then have k': "j - (i + 1) = k" by simp
      from True have le: "i + 1 \<le> j" "i \<le> j" by simp_all
      show ?thesis unfolding res ih k k' using le by simp
    next
      case nlt: False
      have "\<not> ?c"
      proof
        assume h: ?c
        with nlt have "j = i" by simp
        with h False show False by simp
      qed
      moreover from nlt have "\<not> (i + 1 \<le> j \<and> j - (i + 1) < length rest \<and> rest ! (j - (i + 1)) = (nm, cur) \<and> found ! j = None)"
        by simp
      ultimately show ?thesis unfolding res ih by (simp only: if_False)
    qed
  qed
qed

lemma length_scan_atoms:
  "length (scan_atoms needed occs counts atoms found) = length found"
  by (induction atoms arbitrary: counts found) (simp_all add: Let_def length_bind_slot)

lemma scan_atoms_nth:
  assumes "distinct occs" "i < length occs" "occs ! i = (n, k)"
    and "\<forall>(n, k)\<in>set occs. needed n \<noteq> None"
    and "length found = length occs"
  shows "scan_atoms needed occs counts atoms found ! i =
    (if found ! i \<noteq> None then found ! i
     else if get0 counts n < k \<and> k - get0 counts n \<le> length (filter (\<lambda>a. name a = n) atoms)
          then Some (filter (\<lambda>a. name a = n) atoms ! (k - get0 counts n - 1))
          else None)"
  using assms(5)
proof (induction atoms arbitrary: counts found)
  case Nil
  then show ?case by auto
next
  case (Cons a atoms)
  note nk = assms(3)
  from assms(2) nk have mem: "(n, k) \<in> set occs" by (metis nth_mem)
  with assms(4) have needed_n: "needed n \<noteq> None" by auto
  show ?case
  proof (cases "needed (name a) = None")
    case True
    with needed_n have ne: "name a \<noteq> n" by auto
    from True have "scan_atoms needed occs counts (a # atoms) found =
        scan_atoms needed occs counts atoms found" by simp
    with Cons.IH [OF Cons.prems, of counts] ne show ?thesis by simp
  next
    case False
    define cur where "cur = get0 counts (name a) + 1"
    define counts' where "counts' = counts(name a \<mapsto> cur)"
    define found' where "found' = bind_slot 0 occs (name a) cur a found"
    have g: "get0 counts' m = (if m = name a then cur else get0 counts m)" for m
      by (simp add: counts'_def get0_upd)
    have step: "scan_atoms needed occs counts (a # atoms) found =
        scan_atoms needed occs counts' atoms found'"
      using False by (simp add: Let_def counts'_def found'_def cur_def get0_upd)
    have len': "length found' = length occs"
      by (simp add: found'_def length_bind_slot Cons.prems)
    have i_found: "i < length found" using assms(2) Cons.prems by simp
    have f': "found' ! i =
        (if occs ! i = (name a, cur) \<and> found ! i = None then Some a else found ! i)"
      unfolding found'_def using bind_slot_nth [OF assms(1) i_found, of 0 "name a" cur a] assms(2)
      by simp
    note ih = Cons.IH [OF len', of counts']
    show ?thesis
    proof (cases "found ! i")
      case (Some b)
      then show ?thesis unfolding step ih f' by simp
    next
      case None
      show ?thesis
      proof (cases "name a = n")
        case ne: False
        then show ?thesis unfolding step ih f' using None nk by (simp add: g)
      next
        case True
        show ?thesis
        proof (cases "k = cur")
          case True
          with \<open>name a = n\<close> None nk show ?thesis
            unfolding step ih f' by (simp add: cur_def)
        next
          case False
          have c: "get0 counts n < k \<longleftrightarrow> cur < k" using False \<open>name a = n\<close>
            by (auto simp: cur_def)
          have "(a # ms) ! (k - get0 counts n - 1) = ms ! (k - cur - 1)"
            if "cur < k" for ms :: "'a atom list"
            using that \<open>name a = n\<close> by (cases "k - get0 counts n - 1") (auto simp: cur_def)
          with False \<open>name a = n\<close> None nk c show ?thesis
            unfolding step ih f' by (auto simp: g cur_def)
        qed
      qed
    qed
  qed
qed

lemma find_snoc:
  "List.find P (xs @ [v]) =
   (case List.find P xs of Some r \<Rightarrow> Some r | None \<Rightarrow> if P v then Some v else None)"
  by (induction xs) auto

lemma running_count_append:
  "p < length atoms \<Longrightarrow> running_count (atoms @ tail) p = running_count atoms p"
  by (simp add: running_count_def nth_append)

lemma running_count_last:
  "running_count (atoms @ [a]) (length atoms) =
   Suc (length (filter (\<lambda>b. name b = name a) atoms))"
  by (simp add: running_count_def)

lemma kth_named_find:
  "(if 0 < k \<and> k \<le> length (filter (\<lambda>a. name a = n) atoms)
    then Some (filter (\<lambda>a. name a = n) atoms ! (k - 1)) else None) =
   map_option (\<lambda>p. atoms ! p)
     (List.find (\<lambda>p. name (atoms ! p) = n \<and> running_count atoms p = k) [0..<length atoms])"
proof (induction atoms rule: rev_induct)
  case Nil
  then show ?case by auto
next
  case (snoc a atoms)
  let ?ms = "filter (\<lambda>a. name a = n) atoms"
  let ?P = "\<lambda>p. name (atoms ! p) = n \<and> running_count atoms p = k"
  let ?P' = "\<lambda>p. name ((atoms @ [a]) ! p) = n \<and> running_count (atoms @ [a]) p = k"
  have same: "List.find ?P' [0..<length atoms] = List.find ?P [0..<length atoms]"
    by (rule find_cong) (simp_all add: nth_append running_count_append)
  have fnd: "List.find ?P' [0..<length (atoms @ [a])] =
      (case List.find ?P [0..<length atoms] of
         Some r \<Rightarrow> Some r
       | None \<Rightarrow> if name a = n \<and> Suc (length ?ms) = k
                 then Some (length atoms) else None)"
    by (cases "name a = n") (auto simp: find_snoc same running_count_last split: option.splits)
  show ?case
  proof (cases "List.find ?P [0..<length atoms]")
    case (Some p)
    then have p: "p < length atoms" by (auto simp: find_Some_iff)
    from snoc Some have k: "0 < k \<and> k \<le> length ?ms" and v: "?ms ! (k - 1) = atoms ! p"
      by (auto split: if_splits)
    from k v p show ?thesis unfolding fnd Some by (auto simp: nth_append)
  next
    case None
    with snoc have nk: "\<not> (0 < k \<and> k \<le> length ?ms)" by (auto split: if_splits)
    show ?thesis
    proof (cases "name a = n")
      case True
      with nk show ?thesis unfolding fnd None by (auto simp: nth_append)
    next
      case False
      with nk show ?thesis unfolding fnd None by auto
    qed
  qed
qed

lemma slot_position_props:
  assumes "slot_position atoms pattern i = Some p"
  shows "p < length atoms \<and> name (atoms ! p) = pattern ! i \<and>
         running_count atoms p = occurrence_rank pattern i"
  using assms by (auto simp: slot_position_def find_Some_iff)

lemma occurrence_rank_mono:
  assumes "i < j" "j < length pattern" "pattern ! i = pattern ! j"
  shows "occurrence_rank pattern i < occurrence_rank pattern j"
proof -
  let ?n = "pattern ! j"
  have "take (Suc j) pattern = take (Suc i) pattern @ drop (Suc i) (take (Suc j) pattern)"
    using assms(1) by (metis Suc_leI append_take_drop_id min.absorb1 Suc_le_mono less_imp_le take_take)
  moreover have "pattern ! j \<in> set (drop (Suc i) (take (Suc j) pattern))"
  proof -
    have "drop (Suc i) (take (Suc j) pattern) ! (j - Suc i) = pattern ! j"
      using assms(1,2) by simp
    moreover have "j - Suc i < length (drop (Suc i) (take (Suc j) pattern))"
      using assms(1,2) by simp
    ultimately show ?thesis by (metis nth_mem)
  qed
  then have "0 < length (filter (\<lambda>n. n = ?n) (drop (Suc i) (take (Suc j) pattern)))"
    by (simp add: filter_empty_conv)
  ultimately show ?thesis
    unfolding occurrence_rank_def assms(3)
    by (metis (no_types, lifting) filter_append length_append less_add_same_cancel1)
qed

lemma those_map:
  "those (map f xs) =
   (if \<forall>v\<in>set xs. f v \<noteq> None then Some (map (\<lambda>v. the (f v)) xs) else None)"
  by (induction xs) (auto split: option.splits)

lemma find_pattern_slots:
  "find_pattern_in_molecule atoms pattern =
   those (map (\<lambda>i. map_option (\<lambda>p. atoms ! p) (slot_position atoms pattern i))
            [0..<length pattern])"
proof -
  let ?occs = "occurrences Map.empty pattern"
  let ?needed = "count_names Map.empty pattern"
  let ?found = "scan_atoms ?needed ?occs Map.empty atoms (replicate (length pattern) None)"
  have len: "length ?found = length pattern" by (simp add: length_scan_atoms)
  have "?needed n \<noteq> None" if "(n, k) \<in> set ?occs" for n k
    using occurrences_names [OF that] count_names_dom [of Map.empty pattern n] by simp
  then have needed: "\<forall>(n, k)\<in>set ?occs. ?needed n \<noteq> None"
    by blast
  have "?found = map (\<lambda>i. map_option (\<lambda>p. atoms ! p) (slot_position atoms pattern i))
            [0..<length pattern]"
  proof (rule nth_equalityI)
    show "length ?found = length (map (\<lambda>i. map_option (\<lambda>p. atoms ! p) (slot_position atoms pattern i))
            [0..<length pattern])"
      by (simp add: len)
  next
    fix i assume "i < length ?found"
    with len have i: "i < length pattern" by simp
    have occ: "?occs ! i = (pattern ! i, occurrence_rank pattern i)"
      using occurrences_nth [OF i, of Map.empty] by (simp add: get0_empty occurrence_rank_def)
    have "?found ! i =
      (if 0 < occurrence_rank pattern i \<and>
          occurrence_rank pattern i \<le> length (filter (\<lambda>a. name a = pattern ! i) atoms)
       then Some (filter (\<lambda>a. name a = pattern ! i) atoms ! (occurrence_rank pattern i - 1))
       else None)"
      using scan_atoms_nth [OF distinct_occurrences _ occ needed, of "replicate (length pattern) None" Map.empty atoms] i
      by (simp add: length_occurrences get0_empty)
    also have "\<dots> = map_option (\<lambda>p. atoms ! p) (slot_position atoms pattern i)"
      unfolding slot_position_def by (rule kth_named_find)
    finally show "?found ! i = map (\<lambda>i. map_option (\<lambda>p. atoms ! p) (slot_position atoms pattern i))
            [0..<length pattern] ! i"
      using i by simp
  qed
  then show ?thesis by (simp add: find_pattern_in_molecule_def Let_def)
qed

lemma prefix_count_mono:
  assumes "i < j" "j < length xs" "f (xs ! i) = f (xs ! j)"
  shows "length (filter (\<lambda>v. f v = f (xs ! i)) (take (Suc i) xs)) <
         length (filter (\<lambda>v. f v = f (xs ! j)) (take (Suc j) xs))"
proof -
  let ?mid = "drop (Suc i) (take (Suc j) xs)"
  have split: "take (Suc j) xs = take (Suc i) xs @ ?mid"
    using assms(1) by (metis Suc_leI append_take_drop_id min.absorb1 Suc_le_mono less_imp_le take_take)
  have "?mid ! (j - Suc i) = xs ! j" "j - Suc i < length ?mid"
    using assms(1,2) by simp_all
  then have "xs ! j \<in> set ?mid" by (metis nth_mem)
  then have "0 < length (filter (\<lambda>v. f v = f (xs ! j)) ?mid)"
    by (auto simp: filter_empty_conv)
  moreover have "filter (\<lambda>v. f v = f (xs ! j)) (take (Suc j) xs) =
      filter (\<lambda>v. f v = f (xs ! j)) (take (Suc i) xs) @ filter (\<lambda>v. f v = f (xs ! j)) ?mid"
    by (subst split) simp
  ultimately show ?thesis unfolding assms(3) by simp
qed

lemma running_count_mono:
  assumes "p < q" "q < length atoms" "name (atoms ! p) = name (atoms ! q)"
  shows "running_count atoms p < running_count atoms q"
  unfolding running_count_def by (rule prefix_count_mono [OF assms])

lemma slot_position_iff:
  "slot_position atoms pattern i = Some p \<longleftrightarrow>
   p < length atoms \<and> name (atoms ! p) = pattern ! i \<and>
   running_count atoms p = occurrence_rank pattern i"
proof
  assume "slot_position atoms pattern i = Some p"
  then show "p < length atoms \<and> name (atoms ! p) = pattern ! i \<and>
     running_count atoms p = occurrence_rank pattern i"
    by (rule slot_position_props)
next
  assume h: "p < length atoms \<and> name (atoms ! p) = pattern ! i \<and>
     running_count atoms p = occurrence_rank pattern i"
  have "\<not> (name (atoms ! q) = pattern ! i \<and> running_count atoms q = occurrence_rank pattern i)"
    if "q < p" for q
    using running_count_mono [of q p atoms] that h by auto
  with h show "slot_position atoms pattern i = Some p"
    by (auto simp: slot_position_def find_Some_iff)
qed

lemma slots_differ:
  assumes "i < length pattern" "j < length pattern" "i \<noteq> j"
    and "slot_position atoms pattern i = Some p" "slot_position atoms pattern j = Some q"
  shows "p \<noteq> q"
proof
  assume "p = q"
  with assms(4,5) have n: "pattern ! i = pattern ! j"
    and r: "occurrence_rank pattern i = occurrence_rank pattern j"
    by (auto simp: slot_position_iff)
  have "occurrence_rank pattern i \<noteq> occurrence_rank pattern j"
  proof (cases "i < j")
    case True
    from prefix_count_mono [OF True assms(2), of "\<lambda>v. v"] n show ?thesis
      by (simp add: occurrence_rank_def)
  next
    case False
    with assms(3) have "j < i" by simp
    from prefix_count_mono [OF this assms(1), of "\<lambda>v. v"] n show ?thesis
      by (simp add: occurrence_rank_def)
  qed
  with r show False by simp
qed

lemma pattern_slots_found:
  "find_pattern_in_molecule atoms pattern =
     (if \<forall>i<length pattern. slot_position atoms pattern i \<noteq> None
      then Some (map (\<lambda>i. atoms ! the (slot_position atoms pattern i)) [0..<length pattern])
      else None)"
  unfolding find_pattern_slots those_map by (auto simp: option.map_sel)

text \<open>
  Claim C2. For every list of atoms and every pattern, \<^verbatim>\<open>find_pattern_in_molecule\<close>
  succeeds exactly when every slot has a position, and then returns, slot by slot, the
  atom at that position; the position of slot \<open>i\<close> is the one atom whose name is the
  name of the slot and whose running per-name count in file order equals the slot's
  occurrence rank; and two different slots never have the same position. With atoms
  C1, H2, C1 and pattern C1, C1 the slots are bound to the first and to the third atom
  (the witness).
\<close>

theorem pattern_slots_bound_by_rank:
  "find_pattern_in_molecule atoms pattern =
     (if \<forall>i<length pattern. slot_position atoms pattern i \<noteq> None
      then Some (map (\<lambda>i. atoms ! the (slot_position atoms pattern i)) [0..<length pattern])
      else None) \<and>
   (\<forall>i p. slot_position atoms pattern i = Some p \<longleftrightarrow>
      p < length atoms \<and> name (atoms ! p) = pattern ! i \<and>
      running_count atoms p = occurrence_rank pattern i) \<and>
   (\<forall>i j p q. i < length pattern \<and> j < length pattern \<and> i \<noteq> j \<and>
      slot_position atoms pattern i = Some p \<and> slot_position atoms pattern j = Some q \<longrightarrow>
      p \<noteq> q)"
proof -
  have "find_pattern_in_molecule atoms pattern =
     (if \<forall>i<length pattern. slot_position atoms pattern i \<noteq> None
      then Some (map (\<lambda>i. atoms ! the (slot_position atoms pattern i)) [0..<length pattern])
      else None)"
    by (rule pattern_slots_found)
  moreover have "\<forall>i p. slot_position atoms pattern i = Some p \<longleftrightarrow>
      p < length atoms \<and> name (atoms ! p) = pattern ! i \<and>
      running_count atoms p = occurrence_rank pattern i"
    using slot_position_iff by blast
  moreover have "\<forall>i j p q. i < length pattern \<and> j < length pattern \<and> i \<noteq> j \<and>
      slot_position atoms pattern i = Some p \<and> slot_position atoms pattern j = Some q \<longrightarrow>
      p \<noteq> q"
    using slots_differ by blast
  ultimately show ?thesis by blast
qed


theorem pattern_slots_bound_by_rank_witness:
  "find_pattern_in_molecule
     [\<lparr>name = ''C1'', x = Dec 10 1, y = Dec 0 1, z = Dec 0 1, line_index = 0\<rparr>,
      \<lparr>name = ''H2'', x = Dec 20 1, y = Dec 0 1, z = Dec 0 1, line_index = 1\<rparr>,
      \<lparr>name = ''C1'', x = Dec 30 1, y = Dec 0 1, z = Dec 0 1, line_index = 2\<rparr>]
     [''C1'', ''C1''] =
   Some [\<lparr>name = ''C1'', x = Dec 10 1, y = Dec 0 1, z = Dec 0 1, line_index = 0\<rparr>,
         \<lparr>name = ''C1'', x = Dec 30 1, y = Dec 0 1, z = Dec 0 1, line_index = 2\<rparr>] \<and>
   slot_position
     [\<lparr>name = ''C1'', x = Dec 10 1, y = Dec 0 1, z = Dec 0 1, line_index = 0\<rparr>,
      \<lparr>name = ''H2'', x = Dec 20 1, y = Dec 0 1, z = Dec 0 1, line_index = 1\<rparr>,
      \<lparr>name = ''C1'', x = Dec 30 1, y = Dec 0 1, z = Dec 0 1, line_index = 2\<rparr>]
     [''C1'', ''C1''] 0 = Some 0 \<and>
   slot_position
     [\<lparr>name = ''C1'', x = Dec 10 1, y = Dec 0 1, z = Dec 0 1, line_index = 0\<rparr>,
      \<lparr>name = ''H2'', x = Dec 20 1, y = Dec 0 1, z = Dec 0 1, line_index = 1\<rparr>,
      \<lparr>name = ''C1'', x = Dec 30 1, y = Dec 0 1, z = Dec 0 1, line_index = 2\<rparr>]
     [''C1'', ''C1''] 1 = Some 2"
proof -
  let ?atoms = "[\<lparr>name = ''C1'', x = Dec 10 1, y = Dec 0 1, z = Dec 0 1, line_index = 0\<rparr>,
      \<lparr>name = ''H2'', x = Dec 20 1, y = Dec 0 1, z = Dec 0 1, line_index = 1\<rparr>,
      \<lparr>name = ''C1'', x = Dec 30 1, y = Dec 0 1, z = Dec 0 1, line_index = 2\<rparr>]"
  have s0: "slot_position ?atoms [''C1'', ''C1''] 0 = Some 0" by code_simp
  have s1: "slot_position ?atoms [''C1'', ''C1''] 1 = Some 2" by code_simp
  have all: "\<forall>i<length [''C1'', ''C1'']. slot_position ?atoms [''C1'', ''C1''] i \<noteq> None"
    using s0 s1 by (auto simp: less_Suc_eq)
  have up: "[0..<length [''C1'', ''C1'']] = [0, 1]" by (simp add: upt_rec)
  from pattern_slots_bound_by_rank [of ?atoms "[''C1'', ''C1'']"] all
  have "find_pattern_in_molecule ?atoms [''C1'', ''C1''] =
    Some (map (\<lambda>i. ?atoms ! the (slot_position ?atoms [''C1'', ''C1''] i)) [0, 1])"
    unfolding up by presburger
  then show ?thesis using s0 s1 by simp
qed
section \<open>Atoms, insertions and the main loop\<close>

lemma is_atom_line_floats:
  assumes "is_atom_line ops line"
  shows "\<exists>vx vy vz. float_of ops (split_ws line ! 1) = Some vx \<and>
           float_of ops (split_ws line ! 2) = Some vy \<and>
           float_of ops (split_ws line ! 3) = Some vz \<and> 4 \<le> length (split_ws line)"
  using assms by (auto simp: is_atom_line_def Let_def split: if_splits option.splits)

lemma parse_atoms_total: "\<exists>atoms. parse_atoms ops i ls = Inr atoms"
proof (induction ls arbitrary: i)
  case Nil
  then show ?case by simp
next
  case (Cons line ls)
  from Cons [of "i + 1"] obtain atoms where r: "parse_atoms ops (i + 1) ls = Inr atoms" by blast
  show ?case
  proof (cases "is_atom_line ops line")
    case True
    from is_atom_line_floats [OF True] r True show ?thesis by (auto simp: Let_def)
  next
    case False
    with r show ?thesis by simp
  qed
qed

lemma parse_atoms_props:
  assumes "parse_atoms ops i ls = Inr atoms" "a \<in> set atoms"
  shows "i \<le> line_index a \<and> line_index a - i < length ls \<and>
         is_atom_line ops (ls ! (line_index a - i)) \<and>
         name a = split_ws (ls ! (line_index a - i)) ! 0 \<and>
         float_of ops (split_ws (ls ! (line_index a - i)) ! 1) = Some (x a) \<and>
         float_of ops (split_ws (ls ! (line_index a - i)) ! 2) = Some (y a) \<and>
         float_of ops (split_ws (ls ! (line_index a - i)) ! 3) = Some (z a)"
  using assms
proof (induction ls arbitrary: i atoms)
  case Nil
  then show ?case by simp
next
  case (Cons line ls)
  obtain rest where r: "parse_atoms ops (i + 1) ls = Inr rest"
    using parse_atoms_total by blast
  have tl: "i \<le> line_index a \<and> line_index a - i < length (line # ls) \<and>
         is_atom_line ops ((line # ls) ! (line_index a - i)) \<and>
         name a = split_ws ((line # ls) ! (line_index a - i)) ! 0 \<and>
         float_of ops (split_ws ((line # ls) ! (line_index a - i)) ! 1) = Some (x a) \<and>
         float_of ops (split_ws ((line # ls) ! (line_index a - i)) ! 2) = Some (y a) \<and>
         float_of ops (split_ws ((line # ls) ! (line_index a - i)) ! 3) = Some (z a)"
    if "a \<in> set rest"
  proof -
    from Cons.IH [OF r that] have le: "i + 1 \<le> line_index a" by simp
    then obtain k where k: "line_index a - i = Suc k" "line_index a - (i + 1) = k"
      by (cases "line_index a - i") auto
    from Cons.IH [OF r that] le show ?thesis unfolding k by simp
  qed
  show ?case
  proof (cases "is_atom_line ops line")
    case False
    with Cons.prems r have "atoms = rest" by simp
    with Cons.prems(2) tl show ?thesis by simp
  next
    case True
    from is_atom_line_floats [OF True] obtain vx vy vz where
      f: "float_of ops (split_ws line ! 1) = Some vx" "float_of ops (split_ws line ! 2) = Some vy"
         "float_of ops (split_ws line ! 3) = Some vz"
      by blast
    with True r Cons.prems(1) have
      "atoms = \<lparr>name = split_ws line ! 0, x = vx, y = vy, z = vz, line_index = i\<rparr> # rest"
      by (simp add: Let_def)
    with Cons.prems(2) consider
      "a = \<lparr>name = split_ws line ! 0, x = vx, y = vy, z = vz, line_index = i\<rparr>" | "a \<in> set rest"
      by auto
    then show ?thesis
    proof cases
      case 1
      with True f show ?thesis by simp
    next
      case 2
      then show ?thesis by (rule tl)
    qed
  qed
qed

lemma find_pattern_Some:
  assumes "find_pattern_in_molecule atoms pattern = Some bound"
  shows "length bound = length pattern \<and> set bound \<subseteq> set atoms \<and>
         (\<forall>i<length pattern. name (bound ! i) = pattern ! i)"
proof -
  from assms have all: "\<forall>i<length pattern. slot_position atoms pattern i \<noteq> None"
    and b: "bound = map (\<lambda>i. atoms ! the (slot_position atoms pattern i)) [0..<length pattern]"
    using pattern_slots_found [of atoms pattern] by (auto split: if_splits)
  have "atoms ! the (slot_position atoms pattern i) \<in> set atoms \<and>
        name (atoms ! the (slot_position atoms pattern i)) = pattern ! i"
    if "i < length pattern" for i
  proof -
    from all that obtain p where p: "slot_position atoms pattern i = Some p" by auto
    from slot_position_props [OF p] p show ?thesis by simp
  qed
  with b show ?thesis by auto
qed

lemma find_pattern_None:
  assumes "i < length pattern"
    and "length (filter (\<lambda>a. name a = pattern ! i) atoms) < occurrence_rank pattern i"
  shows "find_pattern_in_molecule atoms pattern = None"
proof -
  have "map_option (\<lambda>p. atoms ! p) (slot_position atoms pattern i) = None"
    unfolding slot_position_def kth_named_find [symmetric] using assms(2) by simp
  then have "slot_position atoms pattern i = None" by simp
  with assms(1) show ?thesis using pattern_slots_found [of atoms pattern] by auto
qed

lemma weighted_sum_ok:
  "length vals \<le> length coeffs \<Longrightarrow>
   weighted_sum ops coeffs vals =
     Inr (fsum ops (map (\<lambda>i. fmul ops (coeffs ! i) (vals ! i)) [0..<length vals]))"
proof -
  assume le: "length vals \<le> length coeffs"
  have "map (\<lambda>(c, v). fmul ops c v) (zip coeffs vals) =
        map (\<lambda>i. fmul ops (coeffs ! i) (vals ! i)) [0..<length vals]"
    using le by (intro nth_equalityI) auto
  with le show ?thesis by (simp add: weighted_sum_def)
qed

lemma weighted_sum_error: "weighted_sum ops coeffs vals = Inl e \<Longrightarrow> e = IndexError"
  by (auto simp: weighted_sum_def split: if_splits)

lemma py_nth_error: "py_nth xs i = Inl e \<Longrightarrow> e = IndexError"
  by (auto simp: py_nth_def split: if_splits)

lemma msite_insertion_error:
  "msite_insertion ops mol_lines atoms defn = Inl e \<Longrightarrow> e = IndexError"
  unfolding msite_insertion_def Let_def
  by (auto split: option.splits if_splits sum.splits dest: weighted_sum_error py_nth_error)

lemma msite_insertion_unmatched:
  "find_pattern_in_molecule atoms (atom_names defn) = None \<Longrightarrow>
   msite_insertion ops mol_lines atoms defn = Inr None"
  by (simp add: msite_insertion_def)

lemma weighted_sum_site:
  assumes "length pattern_atoms \<le> length (coefficients defn)"
  shows "weighted_sum ops (coefficients defn) (map k pattern_atoms) =
     Inr (site_coord ops defn k pattern_atoms)"
proof -
  have "map (\<lambda>i. fmul ops (coefficients defn ! i) (map k pattern_atoms ! i))
          [0..<length pattern_atoms] =
        map (\<lambda>i. fmul ops (coefficients defn ! i) (k (pattern_atoms ! i)))
          [0..<length pattern_atoms]"
    by (rule map_cong) simp_all
  with weighted_sum_ok [of "map k pattern_atoms" "coefficients defn" ops] assms
  show ?thesis by (simp add: site_coord_def)
qed

lemma msite_insertion_matched:
  assumes "find_pattern_in_molecule atoms (atom_names defn) = Some pattern_atoms"
    and "pattern_atoms \<noteq> []"
    and "length pattern_atoms \<le> length (coefficients defn)"
    and "line_index (last pattern_atoms) < length mol_lines"
  shows "msite_insertion ops mol_lines atoms defn =
    (let parts = split_ws (mol_lines ! line_index (last pattern_atoms));
         head = msite_head ops (msite_name defn) (site_coord ops defn x pattern_atoms)
                  (site_coord ops defn y pattern_atoms) (site_coord ops defn z pattern_atoms)
     in if length parts < 8 then Inr (Some (line_index (last pattern_atoms) + 1, head @ ''\<newline>''))
        else if length parts = 8 then Inl IndexError
        else Inr (Some (line_index (last pattern_atoms) + 1,
                        head @ msite_tail (parts ! 7) (parts ! 8))))"
  using assms
  by (simp add: msite_insertion_def weighted_sum_site py_nth_def Let_def)

lemma collect_insertions_append:
  "collect_insertions ops mol_lines atoms (ds1 @ ds2) =
   (case collect_insertions ops mol_lines atoms ds1 of
      Inl e \<Rightarrow> Inl e
    | Inr i1 \<Rightarrow>
        (case collect_insertions ops mol_lines atoms ds2 of
           Inl e \<Rightarrow> Inl e
         | Inr i2 \<Rightarrow> Inr (i1 @ i2)))"
  by (induction ds1) (auto split: sum.splits option.splits)

lemma collect_insertions_skip:
  assumes "msite_insertion ops mol_lines atoms defn = Inr None"
  shows "collect_insertions ops mol_lines atoms (ds1 @ defn # ds2) =
         collect_insertions ops mol_lines atoms (ds1 @ ds2)"
proof -
  have "collect_insertions ops mol_lines atoms (defn # ds2) =
        collect_insertions ops mol_lines atoms ds2"
    using assms by (simp split: sum.splits)
  then show ?thesis by (simp only: collect_insertions_append)
qed

lemma collect_insertions_error:
  "collect_insertions ops mol_lines atoms ds = Inl e \<Longrightarrow> e = IndexError"
  by (induction ds arbitrary: e)
     (auto split: sum.splits dest: msite_insertion_error)

lemma collect_insertions_raises:
  assumes "defn \<in> set ds" "msite_insertion ops mol_lines atoms defn = Inl e"
  shows "collect_insertions ops mol_lines atoms ds = Inl IndexError"
  using assms
proof (induction ds)
  case Nil
  then show ?case by simp
next
  case (Cons d ds)
  show ?case
  proof (cases "msite_insertion ops mol_lines atoms d")
    case (Inl e')
    with msite_insertion_error [OF Inl] show ?thesis by simp
  next
    case (Inr r)
    with Cons have "collect_insertions ops mol_lines atoms ds = Inl IndexError" by auto
    with Inr show ?thesis by simp
  qed
qed

lemma apply_insertions_Nil: "apply_insertions [] ls = ls"
  by (simp add: apply_insertions_def)

lemma apply_insertions_single: "apply_insertions [(i, l)] ls = take i ls @ l # drop i ls"
  by (simp add: apply_insertions_def py_insert_def)

lemma process_molecule_single:
  assumes "parse_atoms ops 0 mol_lines = Inr atoms"
  shows "process_molecule ops mol_lines [defn] =
    (case msite_insertion ops mol_lines atoms defn of
       Inl e \<Rightarrow> Inl e
     | Inr None \<Rightarrow> Inr mol_lines
     | Inr (Some (i, l)) \<Rightarrow> Inr (take i mol_lines @ l # drop i mol_lines))"
  using assms
  by (auto simp: process_molecule_def apply_insertions_Nil apply_insertions_single
      split: sum.splits option.splits)

lemma main_err_lines:
  "err_lines (xyz_add_gen_msite_main ops definitions inp) =
   (if definitions = [] then [''Warning: No M-site definitions found\<newline>''] else [])"
  unfolding xyz_add_gen_msite_main_def Let_def
  by (auto split: prod.splits option.splits sum.splits)

lemma main_loop_header:
  "\<forall>l\<in>set hdr. get_molecule_id l = None \<Longrightarrow>
   main_loop ops defs
     \<lparr>current_mol_id = None, current_mol_lines = [], header_mode = True, stdout = out\<rparr>
     (hdr @ rest) =
   main_loop ops defs
     \<lparr>current_mol_id = None, current_mol_lines = [], header_mode = True, stdout = out @ hdr\<rparr>
     rest"
  by (induction hdr arbitrary: out) (simp_all add: main_step_def Let_def)

lemma main_loop_same_id:
  "\<forall>l\<in>set ls. get_molecule_id l = Some m \<Longrightarrow>
   main_loop ops defs
     \<lparr>current_mol_id = Some m, current_mol_lines = cur, header_mode = False, stdout = out\<rparr>
     (ls @ rest) =
   main_loop ops defs
     \<lparr>current_mol_id = Some m, current_mol_lines = cur @ ls, header_mode = False, stdout = out\<rparr>
     rest"
  by (induction ls arbitrary: cur) (simp_all add: main_step_def Let_def)

lemma main_single_group:
  assumes "\<forall>l\<in>set hdr. get_molecule_id l = None"
    and "grp \<noteq> []" "\<forall>l\<in>set grp. get_molecule_id l = Some m"
  shows "xyz_add_gen_msite_main ops defs (hdr @ grp) =
    (case process_molecule ops grp defs of
       Inl e \<Rightarrow> \<lparr>out_lines = hdr,
                 err_lines = (if defs = [] then [''Warning: No M-site definitions found\<newline>''] else []),
                 uncaught = Some e\<rparr>
     | Inr ls \<Rightarrow> \<lparr>out_lines = hdr @ ls,
                  err_lines = (if defs = [] then [''Warning: No M-site definitions found\<newline>''] else []),
                  uncaught = None\<rparr>)"
proof -
  obtain g gs where grp: "grp = g # gs" using assms(2) by (cases grp) auto
  with assms(3) have g: "get_molecule_id g = Some m" and gs: "\<forall>l\<in>set gs. get_molecule_id l = Some m"
    by auto
  have first: "main_step ops defs
      \<lparr>current_mol_id = None, current_mol_lines = [], header_mode = True, stdout = hdr\<rparr> g =
     Inr \<lparr>current_mol_id = Some m, current_mol_lines = [g], header_mode = False, stdout = hdr\<rparr>"
    using g by (simp add: main_step_def Let_def)
  have "main_loop ops defs
     \<lparr>current_mol_id = None, current_mol_lines = [], header_mode = True, stdout = []\<rparr>
     (hdr @ grp) =
    main_loop ops defs
     \<lparr>current_mol_id = None, current_mol_lines = [], header_mode = True, stdout = [] @ hdr\<rparr>
     (g # gs)"
    unfolding grp by (rule main_loop_header [OF assms(1)])
  also have "\<dots> = main_loop ops defs
     \<lparr>current_mol_id = Some m, current_mol_lines = [g], header_mode = False, stdout = hdr\<rparr>
     (gs @ [])"
    by (simp add: first)
  also have "\<dots> = main_loop ops defs
     \<lparr>current_mol_id = Some m, current_mol_lines = [g] @ gs, header_mode = False, stdout = hdr\<rparr>
     []"
    by (rule main_loop_same_id [OF gs])
  finally have loop: "main_loop ops defs
     \<lparr>current_mol_id = None, current_mol_lines = [], header_mode = True, stdout = []\<rparr>
     (hdr @ grp) =
    (\<lparr>current_mol_id = Some m, current_mol_lines = grp, header_mode = False, stdout = hdr\<rparr>, None)"
    by (simp add: grp)
  show ?thesis
    unfolding xyz_add_gen_msite_main_def Let_def loop using assms(2)
    by (simp split: sum.splits)
qed

lemma matched_facts:
  assumes v: "valid_definition defn"
    and atoms: "parse_atoms ops 0 mol_lines = Inr atoms"
    and bound: "find_pattern_in_molecule atoms (atom_names defn) = Some pattern_atoms"
  shows "pattern_atoms \<noteq> []" "length pattern_atoms \<le> length (coefficients defn)"
    "line_index (last pattern_atoms) < length mol_lines"
    "name (last pattern_atoms) = last (atom_names defn)"
    "split_ws (mol_lines ! line_index (last pattern_atoms)) ! 0 = last (atom_names defn)"
proof -
  from find_pattern_Some [OF bound] have len: "length pattern_atoms = length (atom_names defn)"
    and sub: "set pattern_atoms \<subseteq> set atoms"
    and nm: "\<forall>i<length (atom_names defn). name (pattern_atoms ! i) = atom_names defn ! i"
    by auto
  from v len show ne: "pattern_atoms \<noteq> []" by (auto simp: valid_definition_def)
  from v len show "length pattern_atoms \<le> length (coefficients defn)"
    by (simp add: valid_definition_def)
  from ne sub have "last pattern_atoms \<in> set atoms" by auto
  from parse_atoms_props [OF atoms this]
  have pp: "line_index (last pattern_atoms) < length mol_lines \<and>
      name (last pattern_atoms) = split_ws (mol_lines ! line_index (last pattern_atoms)) ! 0"
    by simp
  then show "line_index (last pattern_atoms) < length mol_lines" by simp
  from pp have l0: "name (last pattern_atoms) = split_ws (mol_lines ! line_index (last pattern_atoms)) ! 0"
    by simp
  from v ne len nm show n: "name (last pattern_atoms) = last (atom_names defn)"
    by (simp add: valid_definition_def last_conv_nth)
  from l0 n show "split_ws (mol_lines ! line_index (last pattern_atoms)) ! 0 = last (atom_names defn)"
    by simp
qed

section \<open>Evaluating concrete runs\<close>

text \<open>Equations that let the simplifier run the model on concrete lines.\<close>

lemma str_nat_numeral:
  "str_nat (numeral k) =
     (if numeral k < (10::nat) then [digit_char (numeral k)]
      else str_nat (numeral k div 10) @ [digit_char (numeral k mod 10)])"
  by (rule str_nat.simps)

lemma str_nat_small: "n < 10 \<Longrightarrow> str_nat n = [digit_char n]"
  by (subst str_nat.simps) simp

lemma replicate_numeral: "replicate (numeral k) c = c # replicate (pred_numeral k) c"
  by (simp add: numeral_eq_Suc)

lemmas text_eval = split_ws_def is_space_def strip_def

lemmas decimal_eval =
  decimal_ops_def dec_of_def is_digit_def digits_nat_def digit_val_def dec_sum_def
  dec_fmt_def rjust11_def frac7_def round_half_even_def digit_char_def
  str_nat_numeral str_nat_small replicate_numeral

lemmas tool_eval =
  get_molecule_id_def is_atom_line_def Let_def process_molecule_def msite_insertion_def
  find_pattern_in_molecule_def occurrences_Cons get0_def weighted_sum_def py_nth_def
  py_insert_def apply_insertions_def msite_head_def msite_tail_def ljust8_def
  main_step_def xyz_add_gen_msite_main_def site_on_def em_definition_def
  valid_definition_def site_coord_def

section \<open>Properties of the M-site insertion tool\<close>

text \<open>
  Claim C4. If some slot of a definition's pattern asks for an occurrence of its name
  that the molecule does not have, the match fails as a whole
  (\<^verbatim>\<open>find_pattern_in_molecule\<close> returns \<^verbatim>\<open>None\<close>), the definition contributes no
  insertion, \<^verbatim>\<open>process_molecule\<close> returns what it returns without that definition
  (and the molecule's lines unchanged when it is the only definition), a run over a
  header and this one molecule writes the input back, and nothing is written to
  standard error.
\<close>

theorem unmatched_pattern_inserts_nothing:
  assumes "i < length (atom_names defn)"
    and "length (filter (\<lambda>a. name a = atom_names defn ! i) atoms) <
         occurrence_rank (atom_names defn) i"
    and "parse_atoms ops 0 mol_lines = Inr atoms"
  shows "find_pattern_in_molecule atoms (atom_names defn) = None \<and>
    msite_insertion ops mol_lines atoms defn = Inr None \<and>
    process_molecule ops mol_lines [defn] = Inr mol_lines \<and>
    process_molecule ops mol_lines (ds1 @ defn # ds2) = process_molecule ops mol_lines (ds1 @ ds2) \<and>
    err_lines (xyz_add_gen_msite_main ops (ds1 @ defn # ds2) inp) = [] \<and>
    ((\<forall>l\<in>set hdr. get_molecule_id l = None) \<and> mol_lines \<noteq> [] \<and>
     (\<forall>l\<in>set mol_lines. get_molecule_id l = Some m) \<longrightarrow>
     xyz_add_gen_msite_main ops [defn] (hdr @ mol_lines) =
       \<lparr>out_lines = hdr @ mol_lines, err_lines = [], uncaught = None\<rparr>)"
proof -
  have f: "find_pattern_in_molecule atoms (atom_names defn) = None"
    by (rule find_pattern_None [OF assms(1,2)])
  then have ins: "msite_insertion ops mol_lines atoms defn = Inr None"
    by (rule msite_insertion_unmatched)
  have one: "process_molecule ops mol_lines [defn] = Inr mol_lines"
    by (simp add: process_molecule_single [OF assms(3)] ins)
  have "process_molecule ops mol_lines (ds1 @ defn # ds2) = process_molecule ops mol_lines (ds1 @ ds2)"
    by (simp add: process_molecule_def assms(3) collect_insertions_skip [OF ins])
  moreover have "xyz_add_gen_msite_main ops [defn] (hdr @ mol_lines) =
       \<lparr>out_lines = hdr @ mol_lines, err_lines = [], uncaught = None\<rparr>"
    if "\<forall>l\<in>set hdr. get_molecule_id l = None" "mol_lines \<noteq> []"
      "\<forall>l\<in>set mol_lines. get_molecule_id l = Some m"
    using main_single_group [OF that, of ops "[defn]"] one by simp
  ultimately show ?thesis using f ins one by (simp add: main_err_lines)
qed

theorem unmatched_pattern_inserts_nothing_witness:
  "find_pattern_in_molecule
     [\<lparr>name = ''C1'', x = Dec 10 1, y = Dec 0 1, z = Dec 0 1, line_index = 0\<rparr>,
      \<lparr>name = ''H2'', x = Dec 20 1, y = Dec 0 1, z = Dec 0 1, line_index = 1\<rparr>]
     [''C1'', ''H2'', ''C1''] = None \<and>
   process_molecule decimal_ops
     [''C1 1.0 0.0 0.0 0.5 0.5 0.5 1.0 7\<newline>'', ''H2 2.0 0.0 0.0 0.5 0.5 0.5 1.0 7\<newline>'']
     [em_definition] =
   Inr [''C1 1.0 0.0 0.0 0.5 0.5 0.5 1.0 7\<newline>'', ''H2 2.0 0.0 0.0 0.5 0.5 0.5 1.0 7\<newline>''] \<and>
   xyz_add_gen_msite_main decimal_ops [em_definition]
     [''2\<newline>'', ''frame\<newline>'',
      ''C1 1.0 0.0 0.0 0.5 0.5 0.5 1.0 7\<newline>'', ''H2 2.0 0.0 0.0 0.5 0.5 0.5 1.0 7\<newline>''] =
   \<lparr>out_lines = [''2\<newline>'', ''frame\<newline>'',
      ''C1 1.0 0.0 0.0 0.5 0.5 0.5 1.0 7\<newline>'', ''H2 2.0 0.0 0.0 0.5 0.5 0.5 1.0 7\<newline>''],
    err_lines = [], uncaught = None\<rparr>"
proof -
  let ?mol = "[''C1 1.0 0.0 0.0 0.5 0.5 0.5 1.0 7\<newline>'', ''H2 2.0 0.0 0.0 0.5 0.5 0.5 1.0 7\<newline>'']"
  let ?hdr = "[''2\<newline>'', ''frame\<newline>'']"
  let ?atoms = "[\<lparr>name = ''C1'', x = Dec 10 1, y = Dec 0 1, z = Dec 0 1, line_index = 0\<rparr>,
      \<lparr>name = ''H2'', x = Dec 20 1, y = Dec 0 1, z = Dec 0 1, line_index = 1\<rparr>]"
  have n: "atom_names em_definition = [''C1'', ''H2'', ''C1'']" by (simp add: em_definition_def)
  have i: "2 < length (atom_names em_definition)" by (simp add: n)
  have c: "length (filter (\<lambda>a. name a = atom_names em_definition ! 2) ?atoms) <
           occurrence_rank (atom_names em_definition) 2"
    by (simp add: em_definition_def occurrence_rank_def)
  have a: "parse_atoms decimal_ops 0 ?mol = Inr ?atoms" by (simp add: text_eval decimal_eval tool_eval)
  have h: "\<forall>l\<in>set ?hdr. get_molecule_id l = None" by (simp add: text_eval decimal_eval tool_eval)
  have g: "\<forall>l\<in>set ?mol. get_molecule_id l = Some ''7''" by (simp add: text_eval decimal_eval tool_eval)
  from unmatched_pattern_inserts_nothing [OF i c a, of "[]" "[]" "?hdr @ ?mol" ?hdr "''7''"] h g
  show ?thesis unfolding n by simp
qed

text \<open>
  Claim C3, as the code has it. For a definition with as many coefficients as atom names
  whose pattern is bound in the molecule, and whose template line (the line of the last
  bound atom of the pattern, not of the molecule) has at least nine tokens:
  \<^verbatim>\<open>process_molecule\<close> inserts one record right after the template line; its
  coordinates are the sums over the slots of coefficient times coordinate of the bound
  atom, separately for x, y and z; its three force fields are the text \<^verbatim>\<open>0.0000000\<close>;
  its last two fields are the eighth and ninth token of the template line (mass and
  molecule id). The witness is the definition \<^verbatim>\<open>C1 H2 C1 EM / 0.2 0.2 0.2\<close> on the
  molecule C1, H2, C1 with mass 1.0 and molecule id 7. A template line with fewer tokens
  gives a record without force, mass and molecule-id fields: the counterexample.
\<close>

theorem msite_record_fields:
  assumes "valid_definition defn"
    and "parse_atoms ops 0 mol_lines = Inr atoms"
    and "find_pattern_in_molecule atoms (atom_names defn) = Some pattern_atoms"
    and "9 \<le> length (split_ws (mol_lines ! line_index (last pattern_atoms)))"
  shows "line_index (last pattern_atoms) < length mol_lines \<and>
    split_ws (mol_lines ! line_index (last pattern_atoms)) ! 0 = last (atom_names defn) \<and>
    process_molecule ops mol_lines [defn] =
      Inr (take (line_index (last pattern_atoms) + 1) mol_lines @
           [ljust8 (msite_name defn) @ '' '' @
            fmt_11_7f ops (site_coord ops defn x pattern_atoms) @ '' '' @
            fmt_11_7f ops (site_coord ops defn y pattern_atoms) @ '' '' @
            fmt_11_7f ops (site_coord ops defn z pattern_atoms) @
            ''     0.0000000     0.0000000     0.0000000     '' @
            split_ws (mol_lines ! line_index (last pattern_atoms)) ! 7 @ ''     '' @
            split_ws (mol_lines ! line_index (last pattern_atoms)) ! 8 @ ''\<newline>''] @
           drop (line_index (last pattern_atoms) + 1) mol_lines)"
proof -
  note m = matched_facts [OF assms(1-3)]
  have "msite_insertion ops mol_lines atoms defn =
      Inr (Some (line_index (last pattern_atoms) + 1,
        msite_head ops (msite_name defn) (site_coord ops defn x pattern_atoms)
          (site_coord ops defn y pattern_atoms) (site_coord ops defn z pattern_atoms) @
        msite_tail (split_ws (mol_lines ! line_index (last pattern_atoms)) ! 7)
          (split_ws (mol_lines ! line_index (last pattern_atoms)) ! 8)))"
    using msite_insertion_matched [OF assms(3) m(1) m(2) m(3), of ops] assms(4)
    by (simp add: Let_def)
  then have "process_molecule ops mol_lines [defn] =
      Inr (take (line_index (last pattern_atoms) + 1) mol_lines @
           (msite_head ops (msite_name defn) (site_coord ops defn x pattern_atoms)
              (site_coord ops defn y pattern_atoms) (site_coord ops defn z pattern_atoms) @
            msite_tail (split_ws (mol_lines ! line_index (last pattern_atoms)) ! 7)
              (split_ws (mol_lines ! line_index (last pattern_atoms)) ! 8)) #
           drop (line_index (last pattern_atoms) + 1) mol_lines)"
    by (simp add: process_molecule_single [OF assms(2)])
  with m(3) m(5) show ?thesis by (simp add: msite_head_def msite_tail_def)
qed

theorem msite_record_fields_witness:
  "dec_of ''0.2'' = Some (Dec 2 1) \<and>
   process_molecule decimal_ops
     [''C1 1.0 0.0 0.0 0.5 0.5 0.5 1.0 7\<newline>'',
      ''H2 2.0 1.0 0.0 0.5 0.5 0.5 1.0 7\<newline>'',
      ''C1 3.0 0.0 1.0 0.5 0.5 0.5 1.0 7\<newline>''] [em_definition] =
   Inr [''C1 1.0 0.0 0.0 0.5 0.5 0.5 1.0 7\<newline>'',
        ''H2 2.0 1.0 0.0 0.5 0.5 0.5 1.0 7\<newline>'',
        ''C1 3.0 0.0 1.0 0.5 0.5 0.5 1.0 7\<newline>'',
        ''EM         1.2000000   0.2000000   0.2000000     0.0000000     0.0000000     0.0000000     1.0     7\<newline>'']"
proof -
  let ?mol = "[''C1 1.0 0.0 0.0 0.5 0.5 0.5 1.0 7\<newline>'',
      ''H2 2.0 1.0 0.0 0.5 0.5 0.5 1.0 7\<newline>'',
      ''C1 3.0 0.0 1.0 0.5 0.5 0.5 1.0 7\<newline>'']"
  let ?atoms = "[\<lparr>name = ''C1'', x = Dec 10 1, y = Dec 0 1, z = Dec 0 1, line_index = 0\<rparr>,
      \<lparr>name = ''H2'', x = Dec 20 1, y = Dec 10 1, z = Dec 0 1, line_index = 1\<rparr>,
      \<lparr>name = ''C1'', x = Dec 30 1, y = Dec 0 1, z = Dec 10 1, line_index = 2\<rparr>]"
  have v: "valid_definition em_definition" by (simp add: text_eval decimal_eval tool_eval)
  have a: "parse_atoms decimal_ops 0 ?mol = Inr ?atoms" by (simp add: text_eval decimal_eval tool_eval)
  have f: "find_pattern_in_molecule ?atoms (atom_names em_definition) = Some ?atoms" by (simp add: text_eval decimal_eval tool_eval)
  have t: "9 \<le> length (split_ws (?mol ! line_index (last ?atoms)))" by (simp add: text_eval decimal_eval tool_eval)
  have r: "take (line_index (last ?atoms) + 1) ?mol @
           [ljust8 (msite_name em_definition) @ '' '' @
            fmt_11_7f decimal_ops (site_coord decimal_ops em_definition x ?atoms) @ '' '' @
            fmt_11_7f decimal_ops (site_coord decimal_ops em_definition y ?atoms) @ '' '' @
            fmt_11_7f decimal_ops (site_coord decimal_ops em_definition z ?atoms) @
            ''     0.0000000     0.0000000     0.0000000     '' @
            split_ws (?mol ! line_index (last ?atoms)) ! 7 @ ''     '' @
            split_ws (?mol ! line_index (last ?atoms)) ! 8 @ ''\<newline>''] @
           drop (line_index (last ?atoms) + 1) ?mol =
     [''C1 1.0 0.0 0.0 0.5 0.5 0.5 1.0 7\<newline>'',
        ''H2 2.0 1.0 0.0 0.5 0.5 0.5 1.0 7\<newline>'',
        ''C1 3.0 0.0 1.0 0.5 0.5 0.5 1.0 7\<newline>'',
        ''EM         1.2000000   0.2000000   0.2000000     0.0000000     0.0000000     0.0000000     1.0     7\<newline>'']"
    by (simp add: text_eval decimal_eval tool_eval)
  have d: "dec_of ''0.2'' = Some (Dec 2 1)" by (simp add: text_eval decimal_eval tool_eval)
  from msite_record_fields [OF v a f t] have
    "process_molecule decimal_ops ?mol [em_definition] = Inr (take (line_index (last ?atoms) + 1) ?mol @
           [ljust8 (msite_name em_definition) @ '' '' @
            fmt_11_7f decimal_ops (site_coord decimal_ops em_definition x ?atoms) @ '' '' @
            fmt_11_7f decimal_ops (site_coord decimal_ops em_definition y ?atoms) @ '' '' @
            fmt_11_7f decimal_ops (site_coord decimal_ops em_definition z ?atoms) @
            ''     0.0000000     0.0000000     0.0000000     '' @
            split_ws (?mol ! line_index (last ?atoms)) ! 7 @ ''     '' @
            split_ws (?mol ! line_index (last ?atoms)) ! 8 @ ''\<newline>''] @
           drop (line_index (last ?atoms) + 1) ?mol)"
    by blast
  with d show ?thesis unfolding r by blast
qed

theorem msite_record_fields_counterexample:
  "parse_atoms decimal_ops 0 [''A 1.0 2.0 3.0\<newline>''] =
     Inr [\<lparr>name = ''A'', x = Dec 10 1, y = Dec 20 1, z = Dec 30 1, line_index = 0\<rparr>] \<and>
   find_pattern_in_molecule
     [\<lparr>name = ''A'', x = Dec 10 1, y = Dec 20 1, z = Dec 30 1, line_index = 0\<rparr>] [''A''] =
     Some [\<lparr>name = ''A'', x = Dec 10 1, y = Dec 20 1, z = Dec 30 1, line_index = 0\<rparr>] \<and>
   process_molecule decimal_ops [''A 1.0 2.0 3.0\<newline>''] [site_on ''A'' ''MA''] =
     Inr [''A 1.0 2.0 3.0\<newline>'', ''MA         1.0000000   2.0000000   3.0000000\<newline>''] \<and>
   split_ws ''MA         1.0000000   2.0000000   3.0000000\<newline>'' =
     [''MA'', ''1.0000000'', ''2.0000000'', ''3.0000000'']"
  by (simp add: text_eval decimal_eval tool_eval)

text \<open>
  Claim C7, as the code has it. For a bound pattern whose template line has fewer than
  eight tokens, \<^verbatim>\<open>process_molecule\<close> does not fail and inserts a record made of the
  site name and the three coordinates only. No warning is printed: with at least one
  definition, a run writes nothing to standard error, whatever its input. The
  counterexample is a run that inserts such a record and leaves standard error empty.
\<close>

theorem short_template_short_record:
  assumes "valid_definition defn"
    and "parse_atoms ops 0 mol_lines = Inr atoms"
    and "find_pattern_in_molecule atoms (atom_names defn) = Some pattern_atoms"
    and "length (split_ws (mol_lines ! line_index (last pattern_atoms))) < 8"
  shows "process_molecule ops mol_lines [defn] =
      Inr (take (line_index (last pattern_atoms) + 1) mol_lines @
           [ljust8 (msite_name defn) @ '' '' @
            fmt_11_7f ops (site_coord ops defn x pattern_atoms) @ '' '' @
            fmt_11_7f ops (site_coord ops defn y pattern_atoms) @ '' '' @
            fmt_11_7f ops (site_coord ops defn z pattern_atoms) @ ''\<newline>''] @
           drop (line_index (last pattern_atoms) + 1) mol_lines) \<and>
    err_lines (xyz_add_gen_msite_main ops (defn # definitions) inp) = []"
proof -
  note m = matched_facts [OF assms(1-3)]
  have "msite_insertion ops mol_lines atoms defn =
      Inr (Some (line_index (last pattern_atoms) + 1,
        msite_head ops (msite_name defn) (site_coord ops defn x pattern_atoms)
          (site_coord ops defn y pattern_atoms) (site_coord ops defn z pattern_atoms) @ ''\<newline>''))"
    using msite_insertion_matched [OF assms(3) m(1) m(2) m(3), of ops] assms(4)
    by (simp add: Let_def)
  then have "process_molecule ops mol_lines [defn] =
      Inr (take (line_index (last pattern_atoms) + 1) mol_lines @
           (msite_head ops (msite_name defn) (site_coord ops defn x pattern_atoms)
              (site_coord ops defn y pattern_atoms) (site_coord ops defn z pattern_atoms) @ ''\<newline>'') #
           drop (line_index (last pattern_atoms) + 1) mol_lines)"
    by (simp add: process_molecule_single [OF assms(2)])
  then show ?thesis by (simp add: msite_head_def main_err_lines)
qed

theorem short_template_short_record_witness:
  "process_molecule decimal_ops [''A 1.0 2.0 3.0\<newline>'', ''B 0.0 0.0 0.0\<newline>''] [site_on ''A'' ''MA''] =
     Inr [''A 1.0 2.0 3.0\<newline>'', ''MA         1.0000000   2.0000000   3.0000000\<newline>'',
          ''B 0.0 0.0 0.0\<newline>''] \<and>
   err_lines (xyz_add_gen_msite_main decimal_ops [site_on ''A'' ''MA'']
     [''A 1.0 2.0 3.0\<newline>'', ''B 0.0 0.0 0.0\<newline>'']) = []"
proof -
  let ?mol = "[''A 1.0 2.0 3.0\<newline>'', ''B 0.0 0.0 0.0\<newline>'']"
  let ?a = "\<lparr>name = ''A'', x = Dec 10 1, y = Dec 20 1, z = Dec 30 1, line_index = 0\<rparr>"
  let ?atoms = "[?a, \<lparr>name = ''B'', x = Dec 0 1, y = Dec 0 1, z = Dec 0 1, line_index = 1\<rparr>]"
  let ?d = "site_on ''A'' ''MA''"
  have v: "valid_definition ?d" by (simp add: text_eval decimal_eval tool_eval)
  have a: "parse_atoms decimal_ops 0 ?mol = Inr ?atoms" by (simp add: text_eval decimal_eval tool_eval)
  have f: "find_pattern_in_molecule ?atoms (atom_names ?d) = Some [?a]" by (simp add: text_eval decimal_eval tool_eval)
  have t: "length (split_ws (?mol ! line_index (last [?a]))) < 8" by (simp add: text_eval decimal_eval tool_eval)
  have r: "take (line_index (last [?a]) + 1) ?mol @
           [ljust8 (msite_name ?d) @ '' '' @
            fmt_11_7f decimal_ops (site_coord decimal_ops ?d x [?a]) @ '' '' @
            fmt_11_7f decimal_ops (site_coord decimal_ops ?d y [?a]) @ '' '' @
            fmt_11_7f decimal_ops (site_coord decimal_ops ?d z [?a]) @ ''\<newline>''] @
           drop (line_index (last [?a]) + 1) ?mol =
     [''A 1.0 2.0 3.0\<newline>'', ''MA         1.0000000   2.0000000   3.0000000\<newline>'',
      ''B 0.0 0.0 0.0\<newline>'']"
    by (simp add: text_eval decimal_eval tool_eval)
  from short_template_short_record [OF v a f t, of "[]" ?mol]
  show ?thesis unfolding r by blast
qed

theorem short_template_short_record_counterexample:
  "xyz_add_gen_msite_main decimal_ops [site_on ''A'' ''MA'']
     [''1\<newline>'', ''frame\<newline>'', ''O 0.0 0.0 0.0 0.0 0.0 0.0 1.0 1\<newline>'',
      ''NetF 0.0 0.0 0.0\<newline>'', ''A 1.0 2.0 3.0\<newline>''] =
   \<lparr>out_lines =
      [''1\<newline>'', ''frame\<newline>'', ''O 0.0 0.0 0.0 0.0 0.0 0.0 1.0 1\<newline>'',
       ''NetF 0.0 0.0 0.0\<newline>'', ''A 1.0 2.0 3.0\<newline>'',
       ''MA         1.0000000   2.0000000   3.0000000\<newline>''],
    err_lines = [], uncaught = None\<rparr>"
  by (simp add: text_eval decimal_eval tool_eval)

text \<open>
  Claim C9. When the template line of a bound pattern has exactly eight tokens (so it
  carries a molecule id and is grouped), building the record reads \<^verbatim>\<open>parts[8]\<close>, the
  ninth token, which does not exist: \<^verbatim>\<open>IndexError\<close>. \<^verbatim>\<open>process_molecule\<close> raises it for
  every definition list that contains the definition, and a run over a header and this
  molecule ends with the uncaught exception after writing the header only. The witness
  is such a run.
\<close>

theorem eight_token_template_raises:
  assumes "valid_definition defn"
    and "parse_atoms ops 0 mol_lines = Inr atoms"
    and "find_pattern_in_molecule atoms (atom_names defn) = Some pattern_atoms"
    and "length (split_ws (mol_lines ! line_index (last pattern_atoms))) = 8"
    and "defn \<in> set definitions"
  shows "get_molecule_id (mol_lines ! line_index (last pattern_atoms)) \<noteq> None \<and>
    py_nth (split_ws (mol_lines ! line_index (last pattern_atoms))) 8 = Inl IndexError \<and>
    msite_insertion ops mol_lines atoms defn = Inl IndexError \<and>
    process_molecule ops mol_lines definitions = Inl IndexError \<and>
    ((\<forall>l\<in>set hdr. get_molecule_id l = None) \<and>
     (\<forall>l\<in>set mol_lines. get_molecule_id l = Some m) \<longrightarrow>
     xyz_add_gen_msite_main ops definitions (hdr @ mol_lines) =
       \<lparr>out_lines = hdr, err_lines = [], uncaught = Some IndexError\<rparr>)"
proof -
  note m = matched_facts [OF assms(1-3)]
  have ins: "msite_insertion ops mol_lines atoms defn = Inl IndexError"
    using msite_insertion_matched [OF assms(3) m(1) m(2) m(3), of ops] assms(4)
    by (simp add: Let_def)
  have "collect_insertions ops mol_lines atoms definitions = Inl IndexError"
    by (rule collect_insertions_raises [OF assms(5) ins])
  then have pm: "process_molecule ops mol_lines definitions = Inl IndexError"
    by (simp add: process_molecule_def assms(2))
  from m(3) have ne: "mol_lines \<noteq> []" by auto
  from assms(5) have d: "definitions \<noteq> []" by auto
  have run: "xyz_add_gen_msite_main ops definitions (hdr @ mol_lines) =
      \<lparr>out_lines = hdr, err_lines = [], uncaught = Some IndexError\<rparr>"
    if "\<forall>l\<in>set hdr. get_molecule_id l = None"
      "\<forall>l\<in>set mol_lines. get_molecule_id l = Some m"
    using main_single_group [OF that(1) ne that(2), of ops definitions] pm d by simp
  have id: "get_molecule_id (mol_lines ! line_index (last pattern_atoms)) \<noteq> None"
    using assms(4) by (simp add: get_molecule_id_def Let_def)
  from ins pm assms(4) run id show ?thesis by (simp add: py_nth_def)
qed

theorem eight_token_template_raises_witness:
  "get_molecule_id ''A 0.0 0.0 0.0 0.0 0.0 0.0 7\<newline>'' = Some ''7'' \<and>
   length (split_ws ''A 0.0 0.0 0.0 0.0 0.0 0.0 7\<newline>'') = 8 \<and>
   process_molecule decimal_ops [''A 0.0 0.0 0.0 0.0 0.0 0.0 7\<newline>''] [site_on ''A'' ''MA''] =
     Inl IndexError \<and>
   xyz_add_gen_msite_main decimal_ops [site_on ''A'' ''MA'']
     [''1\<newline>'', ''frame\<newline>'', ''A 0.0 0.0 0.0 0.0 0.0 0.0 7\<newline>''] =
     \<lparr>out_lines = [''1\<newline>'', ''frame\<newline>''], err_lines = [], uncaught = Some IndexError\<rparr>"
proof -
  let ?mol = "[''A 0.0 0.0 0.0 0.0 0.0 0.0 7\<newline>'']"
  let ?hdr = "[''1\<newline>'', ''frame\<newline>'']"
  let ?a = "\<lparr>name = ''A'', x = Dec 0 1, y = Dec 0 1, z = Dec 0 1, line_index = 0\<rparr>"
  let ?d = "site_on ''A'' ''MA''"
  have v: "valid_definition ?d" by (simp add: text_eval decimal_eval tool_eval)
  have a: "parse_atoms decimal_ops 0 ?mol = Inr [?a]" by (simp add: text_eval decimal_eval tool_eval)
  have f: "find_pattern_in_molecule [?a] (atom_names ?d) = Some [?a]" by (simp add: text_eval decimal_eval tool_eval)
  have t: "length (split_ws (?mol ! line_index (last [?a]))) = 8" by (simp add: text_eval decimal_eval tool_eval)
  have m: "?d \<in> set [?d]" by simp
  have h: "\<forall>l\<in>set ?hdr. get_molecule_id l = None" by (simp add: text_eval decimal_eval tool_eval)
  have g: "\<forall>l\<in>set ?mol. get_molecule_id l = Some ''7''" by (simp add: text_eval decimal_eval tool_eval)
  have i: "get_molecule_id ''A 0.0 0.0 0.0 0.0 0.0 0.0 7\<newline>'' = Some ''7''" by (simp add: text_eval decimal_eval tool_eval)
  have l: "length (split_ws ''A 0.0 0.0 0.0 0.0 0.0 0.0 7\<newline>'') = 8" by (simp add: text_eval decimal_eval tool_eval)
  from eight_token_template_raises [OF v a f t m, of ?hdr "''7''"] h g i l show ?thesis by simp
qed

text \<open>
  Claim C1 does not hold on the code. The insertions are applied in reverse definition
  order, not in descending index order: with lines A, B and the definitions in the order
  (site on B, site on A), the site of A is inserted first, at index 1, and the site of B
  then goes to index 2 of the list that has already grown, which is before B. In the
  other definition order each site follows its atom.
\<close>

theorem insertions_applied_in_reverse_definition_order:
  "process_molecule decimal_ops
     [''A 0.0 0.0 0.0 0.0 0.0 0.0 1.0 7\<newline>'', ''B 1.0 0.0 0.0 0.0 0.0 0.0 1.0 7\<newline>'']
     [site_on ''B'' ''MB'', site_on ''A'' ''MA''] =
   Inr [''A 0.0 0.0 0.0 0.0 0.0 0.0 1.0 7\<newline>'',
        ''MA         0.0000000   0.0000000   0.0000000     0.0000000     0.0000000     0.0000000     1.0     7\<newline>'',
        ''MB         1.0000000   0.0000000   0.0000000     0.0000000     0.0000000     0.0000000     1.0     7\<newline>'',
        ''B 1.0 0.0 0.0 0.0 0.0 0.0 1.0 7\<newline>''] \<and>
   process_molecule decimal_ops
     [''A 0.0 0.0 0.0 0.0 0.0 0.0 1.0 7\<newline>'', ''B 1.0 0.0 0.0 0.0 0.0 0.0 1.0 7\<newline>'']
     [site_on ''A'' ''MA'', site_on ''B'' ''MB''] =
   Inr [''A 0.0 0.0 0.0 0.0 0.0 0.0 1.0 7\<newline>'',
        ''MA         0.0000000   0.0000000   0.0000000     0.0000000     0.0000000     0.0000000     1.0     7\<newline>'',
        ''B 1.0 0.0 0.0 0.0 0.0 0.0 1.0 7\<newline>'',
        ''MB         1.0000000   0.0000000   0.0000000     0.0000000     0.0000000     0.0000000     1.0     7\<newline>'']"
  by (simp add: text_eval decimal_eval tool_eval)

text \<open>
  Claim C8 does not hold on the code. After a line without molecule id the current id is
  \<^verbatim>\<open>None\<close> again, so the next line without id compares equal to it and is appended to a
  group of its own instead of being written; the group then goes through
  \<^verbatim>\<open>process_molecule\<close>, which can insert a site after it. Here the second id-less
  line is followed by a record that is not in the input.
\<close>

theorem second_idless_line_is_grouped:
  "get_molecule_id ''NetF 0.0 0.0 0.0\<newline>'' = None \<and>
   get_molecule_id ''Torq 1.0 2.0 3.0\<newline>'' = None \<and>
   xyz_add_gen_msite_main decimal_ops [site_on ''Torq'' ''MT'']
     [''1\<newline>'', ''frame\<newline>'', ''O 0.0 0.0 0.0 0.0 0.0 0.0 1.0 1\<newline>'',
      ''NetF 0.0 0.0 0.0\<newline>'', ''Torq 1.0 2.0 3.0\<newline>''] =
   \<lparr>out_lines =
      [''1\<newline>'', ''frame\<newline>'', ''O 0.0 0.0 0.0 0.0 0.0 0.0 1.0 1\<newline>'',
       ''NetF 0.0 0.0 0.0\<newline>'', ''Torq 1.0 2.0 3.0\<newline>'',
       ''MT         1.0000000   2.0000000   3.0000000\<newline>''],
    err_lines = [], uncaught = None\<rparr>"
  by (simp add: text_eval decimal_eval tool_eval)

end
